theory Spec2Isabelle
  imports Complex_Main "HOL-Library.Word" "HOL-Library.Log_Nat" "HOL-Library.Monad_Syntax"
begin

unbundle bit_operations_syntax

section \<open>JavaScript values used by UUID.ts\<close>

text \<open>
  The program is the TypeScript class \<open>UUID\<close> of \<open>src/UUID.ts\<close>. Its numbers are
  ECMAScript numbers (IEEE 754 doubles). Every number the class computes is an integer of
  magnitude below \<open>2^53\<close>, which doubles hold and add, subtract and multiply exactly, with
  one exception: the quotient \<open>ts / 0x100000000\<close> and its product with \<open>10000\<close> in
  \<open>_getTimeFieldValues\<close>. Integers are therefore modelled as \<open>int\<close>, and the two
  fractional operations as rationals rounded to a double by \<open>fl64\<close>. The only
  not-a-number value the class returns is the \<open>NaN\<close> of \<open>_getRandomInt\<close>.
\<close>

subsection \<open>The 32-bit operators\<close>

text \<open>
  \<open>&\<close>, \<open>|\<close>, \<open><<\<close> and \<open>>>\<close> convert their operands with ToInt32 (the value modulo
  \<open>2^32\<close>, read as two's complement) and give a signed 32-bit result; \<open>>>>\<close> gives an
  unsigned one. The shift count is taken modulo 32.
\<close>

definition js_and :: "int \<Rightarrow> int \<Rightarrow> int" where
  "js_and a b = sint ((word_of_int a :: 32 word) AND word_of_int b)"

definition js_or :: "int \<Rightarrow> int \<Rightarrow> int" where
  "js_or a b = sint ((word_of_int a :: 32 word) OR word_of_int b)"

definition js_shl :: "int \<Rightarrow> int \<Rightarrow> int" where
  "js_shl a n = sint (push_bit (nat (n mod 32)) (word_of_int a :: 32 word))"

definition js_ushr :: "int \<Rightarrow> int \<Rightarrow> int" where
  "js_ushr a n = uint (drop_bit (nat (n mod 32)) (word_of_int a :: 32 word))"

definition js_sar :: "int \<Rightarrow> int \<Rightarrow> int" where
  "js_sar a n = sint (signed_drop_bit (nat (n mod 32)) (word_of_int a :: 32 word))"

text \<open>\<open>%\<close> takes the sign of the dividend.\<close>

definition js_rem :: "int \<Rightarrow> int \<Rightarrow> int" where
  "js_rem a b = sgn a * (\<bar>a\<bar> mod \<bar>b\<bar>)"

subsection \<open>Doubles\<close>

datatype jsnum = NaN | Num int

text \<open>
  The integer a number holds. The class calls \<open>_getRandomInt\<close> with the literal widths
  4, 8, 14 and 40 only, where the result is never \<open>NaN\<close> (lemmas
  \<open>getRandomInt_small\<close> and \<open>getRandomInt_large\<close> below), so \<open>NaN\<close> has no value here.
\<close>

fun num_value :: "jsnum \<Rightarrow> int" where
  "num_value (Num v) = v"

text \<open>The integer part of a fractional number, as ToInt32 takes it: towards zero.\<close>

definition js_trunc :: "rat \<Rightarrow> int" where
  "js_trunc x = (if x < 0 then \<lceil>x\<rceil> else \<lfloor>x\<rfloor>)"

text \<open>
  Rounding a rational to the nearest double, ties to the even significand (53 bits).
  \<open>floor_log2 x\<close> is the exponent \<open>e\<close> with \<open>2^e \<le> x < 2^(e+1)\<close> of a positive
  \<open>x\<close>. Exponent overflow and subnormal numbers are left out: for a clock value that
  a \<open>Date\<close> can hold, the values rounded in this program lie between \<open>2^-32\<close> and
  \<open>2^54\<close> in magnitude, or are zero.
\<close>

definition floor_log2 :: "rat \<Rightarrow> int" where
  "floor_log2 x = (if 1 \<le> x then bitlen \<lfloor>x\<rfloor> - 1 else - bitlen (\<lceil>1 / x\<rceil> - 1))"

definition pow2 :: "int \<Rightarrow> rat" where
  "pow2 e = (if 0 \<le> e then 2 ^ nat e else 1 / 2 ^ nat (- e))"

definition round_half_even :: "rat \<Rightarrow> int" where
  "round_half_even m =
     (let f = \<lfloor>m\<rfloor>; d = m - of_int f
      in if d < 1 / 2 then f else if 1 / 2 < d then f + 1 else if even f then f else f + 1)"

definition fl64 :: "rat \<Rightarrow> rat" where
  "fl64 x =
     (if x = 0 then 0
      else let ulp = pow2 (floor_log2 \<bar>x\<bar> - 52)
           in sgn x * of_int (round_half_even (\<bar>x\<bar> / ulp)) * ulp)"

subsection \<open>Strings\<close>

text \<open>
  A string is its sequence of UTF-16 code units. \<open>js\<close> turns a literal of the source
  (ASCII) into one.
\<close>

type_synonym jsstring = "nat list"

definition js :: "string \<Rightarrow> jsstring" where
  "js s = map of_char s"

text \<open>
  \<open>Number.prototype.toString(radix)\<close> on an integer: the digits \<open>0-9a-z\<close>, most
  significant first, no leading zero, a minus sign before a negative number.
\<close>

definition digit_unit :: "nat \<Rightarrow> nat" where
  "digit_unit d = (if d < 10 then 48 + d else 87 + d)"

function digits :: "nat \<Rightarrow> nat \<Rightarrow> jsstring" where
  "digits radix n =
     (if radix < 2 \<or> n < radix then [digit_unit n]
      else digits radix (n div radix) @ [digit_unit (n mod radix)])"
  by pat_completeness auto
termination
  by (relation "measure snd") auto

declare digits.simps [simp del]

definition toString :: "int \<Rightarrow> nat \<Rightarrow> jsstring" where
  "toString num radix =
     (if num < 0 then 45 # digits radix (nat (- num)) else digits radix (nat num))"

section \<open>The class UUID\<close>

subsection \<open>\<open>_getIntAligner\<close>\<close>

text \<open>
  \<^verbatim>\<open>for (; i > 0; i >>>= 1, z += z) { if (i & 1) { str = z + str; } }\<close>
\<close>

function aligner_loop :: "int \<Rightarrow> jsstring \<Rightarrow> jsstring \<Rightarrow> jsstring" where
  "aligner_loop i z str =
     (if 0 < i
      then aligner_loop (js_ushr i 1) (z @ z) (if js_and i 1 \<noteq> 0 then z @ str else str)
      else str)"
  by pat_completeness auto
termination
proof (relation "measure (\<lambda>(i, z, str). nat i)")
  show "wf (measure (\<lambda>(i, z, str). nat i))"
    by simp
next
  fix i :: int and z str :: jsstring
  assume pos: "0 < i"
  have "js_ushr i 1 = (i mod 4294967296) div 2"
    by (simp add: js_ushr_def uint_word_of_int drop_bit_eq_div uint_div_distrib)
  moreover have "i mod 4294967296 \<le> i"
    using pos by (simp add: zmod_le_nonneg_dividend)
  ultimately show "((js_ushr i 1, z @ z, if js_and i 1 \<noteq> 0 then z @ str else str), (i, z, str))
      \<in> measure (\<lambda>(i, z, str). nat i)"
    using pos by simp
qed

declare aligner_loop.simps [simp del]

text \<open>
  \<^verbatim>\<open>var str = num.toString(radix), i = length - str.length, z = "0";\<close>
  The loop leaves \<open>str\<close> as it is when it is already \<open>length\<close> units long or longer.
\<close>

definition getIntAligner :: "nat \<Rightarrow> int \<Rightarrow> int \<Rightarrow> jsstring" where
  "getIntAligner radix num len =
     (let str = toString num radix; i = len - int (length str)
      in aligner_loop i (js ''0'') str)"

definition hexAligner :: "int \<Rightarrow> int \<Rightarrow> jsstring" where
  "hexAligner = getIntAligner 16"

definition binAligner :: "int \<Rightarrow> int \<Rightarrow> jsstring" where
  "binAligner = getIntAligner 2"

subsection \<open>The object and \<open>_init\<close>\<close>

text \<open>
  The fields of an object of the class, as \<open>_init\<close> sets them. The arrays
  \<open>intFields\<close>, \<open>bitFields\<close> and \<open>hexFields\<close> are lists indexed 0 to 5 (the source
  stores each entry under its field name of \<open>FIELD_NAMES\<close> as well).
\<close>

record UUID =
  intFields :: "int list"
  bitFields :: "jsstring list"
  hexFields :: "jsstring list"
  version :: int
  bitString :: jsstring
  hexString :: jsstring
  hexNoDelim :: jsstring
  urn :: jsstring

definition FIELD_SIZES :: "int list" where
  "FIELD_SIZES = [32, 16, 16, 8, 8, 48]"

text \<open>
  \<open>parseInt(arguments[i] || 0)\<close> of an integer argument is the argument: \<open>0 || 0\<close> is
  0, and \<open>parseInt\<close> reads back the decimal digits that the conversion to a string
  writes (for magnitudes below \<open>10^21\<close>; from there on the conversion writes exponent
  notation, of which \<open>parseInt\<close> reads the leading digits only, and the model is of
  arguments below that). \<open>sizes[i] / 4\<close> is exact for the six sizes.
\<close>

definition init :: "int \<Rightarrow> int \<Rightarrow> int \<Rightarrow> int \<Rightarrow> int \<Rightarrow> int \<Rightarrow> UUID" where
  "init timeLow timeMid timeHiAndVersion clockSeqHiAndReserved clockSeqLow node =
     (let arguments = [timeLow, timeMid, timeHiAndVersion, clockSeqHiAndReserved, clockSeqLow, node];
          ints = map (\<lambda>i. arguments ! i) [0..<6];
          bits = map (\<lambda>i. binAligner (ints ! i) (FIELD_SIZES ! i)) [0..<6];
          hexs = map (\<lambda>i. hexAligner (ints ! i) (FIELD_SIZES ! i div 4)) [0..<6];
          hexStr = hexs ! 0 @ js ''-'' @ hexs ! 1 @ js ''-'' @ hexs ! 2
                   @ js ''-'' @ hexs ! 3 @ hexs ! 4 @ js ''-'' @ hexs ! 5
      in \<lparr> intFields = ints, bitFields = bits, hexFields = hexs,
           version = js_and (js_sar (ints ! 2) 12) 0xF,
           bitString = concat bits,
           hexString = hexStr,
           hexNoDelim = concat hexs,
           urn = js ''urn:uuid:'' @ hexStr \<rparr>)"

subsection \<open>\<open>equals\<close>\<close>

text \<open>
  An object of the class. The constructor is public and its body is empty, so
  \<open>new UUID()\<close> is an object that passes \<open>instanceof UUID\<close> and has no field yet;
  \<open>_init\<close> sets every field. The objects the class itself returns are all initialised
  (\<open>new UUID()._init(...)\<close>).
\<close>

datatype UUID_instance =
    NewUUID
  | Initialised UUID

text \<open>What a caller can pass where a \<open>UUID\<close> is expected.\<close>

datatype jsval =
    Undefined
  | Null
  | Boolean bool
  | Number jsnum
  | String jsstring
  | UUIDObject UUID_instance
  | OtherObject

text \<open>An exception thrown by the engine.\<close>

datatype error = TypeError

text \<open>
  \<open>o.intFields\<close>: \<open>undefined\<close> (here \<open>None\<close>) on an object that \<open>_init\<close> has not
  touched.
\<close>

fun intFields_of :: "UUID_instance \<Rightarrow> int list option" where
  "intFields_of NewUUID = None"
| "intFields_of (Initialised u) = Some (intFields u)"

text \<open>
  \<open>a[i]\<close> on an array: the entry, or \<open>undefined\<close> (here \<open>None\<close>) from the length of
  the array on. On two such values \<open>!==\<close> is \<open>\<noteq>\<close>: numbers compare by value, and
  \<open>undefined\<close> is equal to itself only.
\<close>

definition field_at :: "int list \<Rightarrow> nat \<Rightarrow> int option" where
  "field_at a i = (if i < length a then Some (a ! i) else None)"

text \<open>
  \<^verbatim>\<open>for (var i = 0; i < 6; i++) { if (this.intFields[i] !== uuid.intFields[i]) { return false; } }\<close>
  \<^verbatim>\<open>return true;\<close>
  Indexing \<open>undefined\<close> throws a \<open>TypeError\<close>; the left operand \<open>this.intFields[i]\<close>
  is evaluated first.
\<close>

function equals_loop :: "UUID_instance \<Rightarrow> UUID_instance \<Rightarrow> nat \<Rightarrow> error + bool" where
  "equals_loop this uuid i =
     (if i < 6
      then (case intFields_of this of
              None \<Rightarrow> Inl TypeError
            | Some a \<Rightarrow>
                (case intFields_of uuid of
                   None \<Rightarrow> Inl TypeError
                 | Some b \<Rightarrow>
                     (if field_at a i \<noteq> field_at b i then Inr False
                      else equals_loop this uuid (i + 1))))
      else Inr True)"
  by pat_completeness auto
termination
  by (relation "measure (\<lambda>(this, uuid, i). 6 - i)") auto

declare equals_loop.simps [simp del]

text \<open>\<^verbatim>\<open>if (!(uuid instanceof UUID)) { return false; }\<close>, then the loop.\<close>

definition equals :: "UUID_instance \<Rightarrow> jsval \<Rightarrow> error + bool" where
  "equals this x =
     (case x of UUIDObject uuid \<Rightarrow> equals_loop this uuid 0 | _ \<Rightarrow> Inr False)"

subsection \<open>\<open>_getRandomInt\<close>\<close>

text \<open>
  \<open>Math.random()\<close> reads the next number of a stream of draws, each a double in
  \<open>[0, 1)\<close>. Multiplying a double by a power of two is exact, so the product is not
  rounded.
\<close>

type_synonym rng = "nat \<Rightarrow> rat"

definition rng_ok :: "rng \<Rightarrow> bool" where
  "rng_ok g = (\<forall>n. 0 \<le> g n \<and> g n < 1)"

definition Math_random :: "rng \<Rightarrow> rat \<times> rng" where
  "Math_random g = (g 0, \<lambda>n. g (Suc n))"

definition getRandomInt :: "int \<Rightarrow> rng \<Rightarrow> jsnum \<times> rng" where
  "getRandomInt x g =
     (if x < 0 then (NaN, g)
      else if x \<le> 30 then
        (let (r, g1) = Math_random g
         in (Num (js_or 0 (js_trunc (r * of_int (js_shl 1 x)))), g1))
      else if x \<le> 53 then
        (let (r1, g1) = Math_random g;
             (r2, g2) = Math_random g1
         in (Num (js_or 0 (js_trunc (r1 * of_int (js_shl 1 30)))
                  + js_or 0 (js_trunc (r2 * of_int (js_shl 1 (x - 30)))) * js_shl 1 30), g2))
      else (NaN, g))"

text \<open>\<^verbatim>\<open>var rand = UUID._getRandomInt\<close>, at a call whose result is used as an integer.\<close>

definition rand :: "int \<Rightarrow> rng \<Rightarrow> int \<times> rng" where
  "rand x g = (let (v, g1) = getRandomInt x g in (num_value v, g1))"

subsection \<open>The state of version 1 and \<open>resetState\<close>\<close>

record UUIDState =
  timestamp :: int
  sequence :: int
  node :: int
  tick :: int

text \<open>
  \<^verbatim>\<open>this.timestamp = 0; this.sequence = rand(14);\<close>
  \<^verbatim>\<open>this.node = (rand(8) | 1) * 0x10000000000 + rand(40); this.tick = rand(4);\<close>
\<close>

definition new_UUIDState :: "rng \<Rightarrow> UUIDState \<times> rng" where
  "new_UUIDState g =
     (let (s, g1) = rand 14 g;
          (n8, g2) = rand 8 g1;
          (n40, g3) = rand 40 g2;
          (t, g4) = rand 4 g3
      in (\<lparr> timestamp = 0, sequence = s,
            node = js_or n8 1 * 0x10000000000 + n40, tick = t \<rparr>, g4))"

text \<open>\<^verbatim>\<open>UUID._state = new UUID._state.constructor();\<close>: the old state is dropped.\<close>

definition resetState :: "rng \<Rightarrow> UUIDState \<Rightarrow> UUIDState \<times> rng" where
  "resetState g st = new_UUIDState g"

subsection \<open>\<open>_getTimeFieldValues\<close>\<close>

text \<open>\<open>Date.UTC(1582, 9, 15)\<close>: 141427 days before 1970-01-01, in milliseconds.\<close>

definition Date_UTC_1582_10_15 :: int where
  "Date_UTC_1582_10_15 = - 12219292800000"

record time_fields =
  tf_low :: int
  tf_mid :: int
  tf_hi :: int
  tf_timestamp :: rat

definition getTimeFieldValues :: "int \<Rightarrow> time_fields" where
  "getTimeFieldValues time =
     (let ts = fl64 (of_int time - of_int Date_UTC_1582_10_15);
          hm = js_and (js_trunc (fl64 (fl64 (ts / 0x100000000) * 10000))) 0xFFFFFFF
      in \<lparr> tf_low = js_rem (js_and (js_trunc ts) 0xFFFFFFF * 10000) 0x100000000,
           tf_mid = js_and hm 0xFFFF,
           tf_hi = js_ushr hm 16,
           tf_timestamp = ts \<rparr>)"

subsection \<open>\<open>genV1\<close>\<close>

definition tsRatio :: rat where
  "tsRatio = 1 / 4"

text \<open>
  \<open>now\<close> is what \<open>new Date().getTime()\<close> returns, \<open>g\<close> the draws \<open>Math.random()\<close>
  will return. The result is the new object, the state after the call and the draws left.
\<close>

definition genV1 :: "int \<Rightarrow> rng \<Rightarrow> UUIDState \<Rightarrow> UUID \<times> UUIDState \<times> rng" where
  "genV1 now g st =
     (let (st1, g1) =
            (if now \<noteq> timestamp st then
               (let sq = (if now < timestamp st then sequence st + 1 else sequence st);
                    (t, g') = rand 4 g
                in (st\<lparr> sequence := sq, timestamp := now, tick := t \<rparr>, g'))
             else
               (let (r, g') = Math_random g
                in if r < tsRatio \<and> tick st < 9984 then
                     (let (t, g'') = rand 4 g'
                      in (st\<lparr> tick := tick st + (1 + t) \<rparr>, g''))
                   else (st\<lparr> sequence := sequence st + 1 \<rparr>, g')));
          tf = getTimeFieldValues (timestamp st1);
          tl = tf_low tf + tick st1;
          thav = js_or (js_and (tf_hi tf) 0xFFF) 0x1000;
          st2 = st1\<lparr> sequence := js_and (sequence st1) 0x3FFF \<rparr>;
          cshar = js_or (js_ushr (sequence st2) 8) 0x80;
          csl = js_and (sequence st2) 0xFF
      in (init tl (tf_mid tf) thav cshar csl (node st2), st2, g1))"

text \<open>
  The states the class can be in: the one built when the class is loaded, and those
  \<open>genV1\<close> and \<open>resetState\<close> lead to, whatever the clock and the draws.
\<close>

inductive reachable :: "UUIDState \<Rightarrow> bool" where
  loaded: "rng_ok g \<Longrightarrow> reachable (fst (new_UUIDState g))"
| generated: "reachable st \<Longrightarrow> rng_ok g \<Longrightarrow> reachable (fst (snd (genV1 now g st)))"
| reset: "reachable st \<Longrightarrow> rng_ok g \<Longrightarrow> reachable (fst (resetState g st))"

subsection \<open>\<open>parse\<close>\<close>

text \<open>
  The pattern of \<open>parse\<close>, with the flag \<open>i\<close>:
  \<^verbatim>\<open>^\s*(urn:uuid:|\{)?([0-9a-f]{8})-([0-9a-f]{4})-([0-9a-f]{4})-([0-9a-f]{2})([0-9a-f]{2})-([0-9a-f]{12})(\})?\s*$\<close>

  \<open>is_space\<close> is the class \<open>\s\<close>: the white space and line terminator code units.
  \<open>is_hex\<close> is \<open>[0-9a-f]\<close> without regard to case. Without the flag \<open>u\<close>, the case
  of a code unit is folded for ASCII letters only, which \<open>toLowerCase\<close> does here; it is
  also the method \<open>toLowerCase\<close> on the text captured by the first group, which is ASCII.
\<close>

definition is_space :: "nat \<Rightarrow> bool" where
  "is_space c =
     (c \<in> {9, 10, 11, 12, 13, 32, 160, 5760, 8232, 8233, 8239, 8287, 12288, 65279}
      \<or> (8192 \<le> c \<and> c \<le> 8202))"

definition is_hex :: "nat \<Rightarrow> bool" where
  "is_hex c = ((48 \<le> c \<and> c \<le> 57) \<or> (97 \<le> c \<and> c \<le> 102) \<or> (65 \<le> c \<and> c \<le> 70))"

definition toLowerCase :: "jsstring \<Rightarrow> jsstring" where
  "toLowerCase s = map (\<lambda>c. if 65 \<le> c \<and> c \<le> 90 then c + 32 else c) s"

text \<open>\<open>([0-9a-f]{n})\<close>: the captured text and the rest of the input.\<close>

definition hexdigits :: "nat \<Rightarrow> jsstring \<Rightarrow> (jsstring \<times> jsstring) option" where
  "hexdigits n s =
     (if n \<le> length s \<and> list_all is_hex (take n s) then Some (take n s, drop n s) else None)"

definition hyphen :: "jsstring \<Rightarrow> jsstring option" where
  "hyphen s = (case s of [] \<Rightarrow> None | c # r \<Rightarrow> if c = 45 then Some r else None)"

text \<open>
  \<open>(\})?\s*$\<close>: the brace is tried first, then the pattern without it. The result is
  the eighth capture (\<open>None\<close> when the group took no part in the match).
\<close>

definition tail_exec :: "jsstring \<Rightarrow> jsstring option option" where
  "tail_exec s =
     (if s \<noteq> [] \<and> hd s = 125 \<and> list_all is_space (tl s) then Some (Some (js ''}''))
      else if list_all is_space s then Some None
      else None)"

type_synonym body_captures =
  "jsstring \<times> jsstring \<times> jsstring \<times> jsstring \<times> jsstring \<times> jsstring \<times> jsstring option"

text \<open>The pattern from the second group to the end of the input.\<close>

definition body_exec :: "jsstring \<Rightarrow> body_captures option" where
  "body_exec s0 =
     do {
       (r2, s1) \<leftarrow> hexdigits 8 s0;
       s2 \<leftarrow> hyphen s1;
       (r3, s3) \<leftarrow> hexdigits 4 s2;
       s4 \<leftarrow> hyphen s3;
       (r4, s5) \<leftarrow> hexdigits 4 s4;
       s6 \<leftarrow> hyphen s5;
       (r5, s7) \<leftarrow> hexdigits 2 s6;
       (r6, s8) \<leftarrow> hexdigits 2 s7;
       s9 \<leftarrow> hyphen s8;
       (r7, s10) \<leftarrow> hexdigits 12 s9;
       r8 \<leftarrow> tail_exec s10;
       Some (r2, r3, r4, r5, r6, r7, r8)
     }"

text \<open>
  The whole pattern. \<open>\s*\<close> takes every leading white space unit (a shorter run would
  leave one where the pattern goes on with \<open>u\<close>, \<open>{\<close> or a hexadecimal digit). The
  alternatives of the first group are tried in order, then the pattern without the group.
\<close>

definition pattern_exec :: "jsstring \<Rightarrow> (jsstring option \<times> body_captures) option" where
  "pattern_exec strId =
     (let s = dropWhile is_space strId;
          with_urn = (if toLowerCase (take 9 s) = js ''urn:uuid:''
                      then map_option (Pair (Some (take 9 s))) (body_exec (drop 9 s))
                      else None);
          with_brace = (if s \<noteq> [] \<and> hd s = 123
                        then map_option (Pair (Some (js ''{''))) (body_exec (tl s))
                        else None)
      in case with_urn of
           Some r \<Rightarrow> Some r
         | None \<Rightarrow>
             (case with_brace of
                Some r \<Rightarrow> Some r
              | None \<Rightarrow> map_option (Pair None) (body_exec s)))"

text \<open>
  \<open>parseInt(s, 16)\<close> on a captured group: hexadecimal digits only, at least two of them,
  so no white space, sign or \<open>0x\<close> is skipped and the result is a number.
\<close>

definition hex_value :: "nat \<Rightarrow> int" where
  "hex_value c =
     (if 48 \<le> c \<and> c \<le> 57 then int c - 48
      else if 97 \<le> c \<and> c \<le> 102 then int c - 87
      else int c - 55)"

definition parseInt16 :: "jsstring \<Rightarrow> int" where
  "parseInt16 s = foldl (\<lambda>acc c. acc * 16 + hex_value c) 0 s"

text \<open>\<open>null\<close> is \<open>None\<close>. \<open>r[1] || ""\<close> is the empty string for a group that took no part.\<close>

definition parse :: "jsstring \<Rightarrow> UUID option" where
  "parse strId =
     (case pattern_exec strId of
        None \<Rightarrow> None
      | Some (r1, r2, r3, r4, r5, r6, r7, r8) \<Rightarrow>
          (let l = (case r1 of None \<Rightarrow> [] | Some x \<Rightarrow> x);
               t = (case r8 of None \<Rightarrow> [] | Some x \<Rightarrow> x)
           in if l @ t = []
                 \<or> (l = js ''{'' \<and> t = js ''}'')
                 \<or> (toLowerCase l = js ''urn:uuid:'' \<and> t = [])
              then Some (init (parseInt16 r2) (parseInt16 r3) (parseInt16 r4)
                              (parseInt16 r5) (parseInt16 r6) (parseInt16 r7))
              else None))"

section \<open>What the specification says\<close>

text \<open>
  The formulas of the specification for the time converter, read as exact arithmetic:
  \<open>delta = now_ms - gregorian_epoch_ms\<close>,
  \<open>highPart = ((delta / 2^32) * 10000) & 0xFFFFFFF\<close>,
  \<open>low = ((delta & 0xFFFFFFF) * 10000) mod 2^32\<close>, \<open>mid = highPart & 0xFFFF\<close>,
  \<open>hi = highPart >> 16\<close>. The bitwise \<open>&\<close> of the fractional product takes its integer
  part.
\<close>

definition gregorian_epoch_ms :: int where
  "gregorian_epoch_ms = - 12219292800000"

definition spec_time_fields :: "int \<Rightarrow> time_fields" where
  "spec_time_fields now_ms =
     (let delta = now_ms - gregorian_epoch_ms;
          highPart = js_trunc ((of_int delta / 2 ^ 32) * 10000) AND 0xFFFFFFF;
          low = ((delta AND 0xFFFFFFF) * 10000) mod 2 ^ 32
      in \<lparr> tf_low = low, tf_mid = highPart AND 0xFFFF, tf_hi = drop_bit 16 highPart,
           tf_timestamp = of_int delta \<rparr>)"

text \<open>
  The canonical text \<open>xxxxxxxx-xxxx-xxxx-xxxx-xxxxxxxxxxxx\<close>: a hexadecimal digit for
  each \<open>x\<close>, of either case when \<open>lower\<close> is false.
\<close>

definition is_lower_hex :: "nat \<Rightarrow> bool" where
  "is_lower_hex c = ((48 \<le> c \<and> c \<le> 57) \<or> (97 \<le> c \<and> c \<le> 102))"

definition format_unit :: "bool \<Rightarrow> nat \<Rightarrow> char \<Rightarrow> bool" where
  "format_unit lower c p =
     (if p = CHR ''x'' then (if lower then is_lower_hex c else is_hex c) else c = of_char p)"

definition canonical_text :: "bool \<Rightarrow> jsstring \<Rightarrow> bool" where
  "canonical_text lower s =
     list_all2 (format_unit lower) s ''xxxxxxxx-xxxx-xxxx-xxxx-xxxxxxxxxxxx''"

text \<open>The digits a canonical text is made of.\<close>

definition hexp :: "bool \<Rightarrow> nat \<Rightarrow> bool" where
  "hexp lower c = (if lower then is_lower_hex c else is_hex c)"

section \<open>Inputs used to run the model\<close>

text \<open>A stream of draws that returns the same number every time.\<close>

definition draws_const :: "rat \<Rightarrow> rng" where
  "draws_const r = (\<lambda>n. r)"

text \<open>A state, and the states the class reaches at time 1000 after being loaded.\<close>

definition state0 :: UUIDState where
  "state0 = \<lparr> timestamp = 0, sequence = 0, node = 1099511627776, tick = 0 \<rparr>"

definition state_mid :: UUIDState where
  "state_mid = fst (snd (genV1 1000 (draws_const (1 / 2)) (fst (new_UUIDState (draws_const (1 / 2))))))"

definition state_top :: UUIDState where
  "state_top =
     fst (snd (genV1 1000 (draws_const (32767 / 32768))
                 (fst (new_UUIDState (draws_const (32767 / 32768))))))"

text \<open>
  The state the class reaches at time 1790169394543 (2026-09-23T13:16:34.543Z) after being
  loaded, when every draw is \<open>32767/32768\<close>.
\<close>

definition state_edge :: UUIDState where
  "state_edge =
     fst (snd (genV1 1790169394543 (draws_const (32767 / 32768))
                 (fst (new_UUIDState (draws_const (32767 / 32768))))))"

text \<open>A canonical text.\<close>

definition example_text :: jsstring where
  "example_text = js ''01234567-89ab-4def-8123-456789abcdef''"

section \<open>Properties\<close>

subsection \<open>The 32-bit operators on small numbers\<close>

lemma sint32_small: "0 \<le> k \<Longrightarrow> k < 2147483648 \<Longrightarrow> sint (word_of_int k :: 32 word) = k"
  by (simp add: sint_sbintrunc' signed_take_bit_int_eq_self)

lemma js_and_mask:
  assumes "0 \<le> b" "b < 2147483648"
  shows "js_and a b = a AND b"
proof -
  have "0 \<le> a AND b" using assms by simp
  moreover have "a AND b \<le> b" using assms by simp
  ultimately show ?thesis using assms
    by (simp add: js_and_def word_wi_log_defs sint32_small)
qed

lemma and_mask_int: "(a::int) AND (2 ^ n - 1) = a mod 2 ^ n"
  by (metis mask_eq_exp_minus_1 take_bit_eq_mask take_bit_eq_mod)

lemma js_and_3FFF: "js_and a 0x3FFF = a mod 16384"
  using js_and_mask [of "0x3FFF" a] and_mask_int [of a 14] by simp

lemma js_and_FF: "js_and a 0xFF = a mod 256"
  using js_and_mask [of "0xFF" a] and_mask_int [of a 8] by simp

lemma js_or_small:
  assumes "0 \<le> a" "a < 2147483648" "0 \<le> b" "b < 2147483648"
  shows "js_or a b = a OR b"
proof -
  have "0 \<le> a OR b" using assms by simp
  moreover have "a OR b < 2 ^ 31" using assms by (intro OR_upper) simp_all
  ultimately show ?thesis
    by (simp add: js_or_def word_wi_log_defs sint32_small)
qed

lemma js_or_zero: "0 \<le> b \<Longrightarrow> b < 2147483648 \<Longrightarrow> js_or 0 b = b"
  by (simp add: js_or_small)

lemma js_ushr_small:
  assumes "0 \<le> a" "a < 4294967296" "0 \<le> n" "n < 32"
  shows "js_ushr a n = a div 2 ^ nat n"
proof -
  have "js_ushr a n = drop_bit (nat n) (take_bit 32 a)" using assms
    by (simp add: js_ushr_def unsigned_drop_bit_eq uint_word_of_int_eq)
  also have "take_bit 32 a = a" using assms by (simp add: take_bit_int_eq_self)
  finally show ?thesis by (simp add: drop_bit_eq_div)
qed

lemma js_shl_1:
  assumes "0 \<le> x" "x \<le> 30"
  shows "js_shl 1 x = 2 ^ nat x"
proof -
  have "(2::int) ^ nat x \<le> 2 ^ 30" using assms by (intro power_increasing) simp_all
  then have lt: "(2::int) ^ nat x < 2147483648" by simp
  show ?thesis
    using assms lt sint32_small [of "2 ^ nat x"] by (simp add: js_shl_def push_bit_eq_mult)
qed

lemma or_128:
  assumes "0 \<le> v" "v < 128"
  shows "(v::int) OR 128 = v + 128"
proof -
  have "\<not> bit v 7" using assms by (simp add: bit_iff_odd)
  then have "v AND 128 = 0" using and_exp_eq_0_iff_not_bit [of v 7] by simp
  then show ?thesis by (simp add: disjunctive_add_eq_or)
qed

subsection \<open>The random source\<close>

text \<open>One draw scaled to \<open>k\<close> bits, \<open>0 | Math.random() * (1 << k)\<close>, is its floor.\<close>

lemma draw_bits:
  assumes r: "0 \<le> r" "r < 1" and k: "0 \<le> k" "k \<le> 30"
  shows "js_or 0 (js_trunc (r * of_int (js_shl 1 k))) = \<lfloor>r * 2 ^ nat k\<rfloor>"
    and "0 \<le> \<lfloor>r * 2 ^ nat k\<rfloor>" and "\<lfloor>r * 2 ^ nat k\<rfloor> < 2 ^ nat k"
proof -
  let ?p = "r * 2 ^ nat k"
  have nonneg: "0 \<le> ?p" using r by simp
  have less: "?p < 2 ^ nat k" using r by simp
  show f0: "0 \<le> \<lfloor>?p\<rfloor>" using nonneg by simp
  have "\<lfloor>?p\<rfloor> < 2 ^ nat k" using less by (simp add: floor_less_iff)
  then show f1: "\<lfloor>?p\<rfloor> < 2 ^ nat k" .
  have "(2::int) ^ nat k \<le> 2 ^ 30" using k by (intro power_increasing) simp_all
  then have "(2::int) ^ nat k \<le> 1073741824" by simp
  then have "\<lfloor>?p\<rfloor> < 2147483648" using f1 by linarith
  then show "js_or 0 (js_trunc (r * of_int (js_shl 1 k))) = \<lfloor>?p\<rfloor>"
    using f0 nonneg k by (simp add: js_shl_1 js_trunc_def js_or_zero)
qed

lemma rng_ok_nth: "rng_ok g \<Longrightarrow> 0 \<le> g n \<and> g n < 1"
  by (simp add: rng_ok_def)

lemma rng_ok_Suc: "rng_ok g \<Longrightarrow> rng_ok (\<lambda>n. g (Suc n))"
  by (simp add: rng_ok_def)

lemma rng_ok_draws_const: "0 \<le> r \<Longrightarrow> r < 1 \<Longrightarrow> rng_ok (draws_const r)"
  by (simp add: rng_ok_def draws_const_def)

lemma getRandomInt_small:
  assumes "rng_ok g" "0 \<le> x" "x \<le> 30"
  shows "getRandomInt x g = (Num \<lfloor>g 0 * 2 ^ nat x\<rfloor>, \<lambda>n. g (Suc n))"
  using assms draw_bits(1) [of "g 0" x] rng_ok_nth [of g 0]
  by (simp add: getRandomInt_def Math_random_def)

lemma getRandomInt_large:
  assumes "rng_ok g" "30 < x" "x \<le> 53"
  shows "getRandomInt x g =
    (Num (\<lfloor>g 0 * 2 ^ 30\<rfloor> + \<lfloor>g 1 * 2 ^ nat (x - 30)\<rfloor> * 2 ^ 30), \<lambda>n. g (Suc (Suc n)))"
  using assms draw_bits(1) [of "g 0" 30] draw_bits(1) [of "g 1" "x - 30"]
     rng_ok_nth [of g 0] rng_ok_nth [of g 1] js_shl_1 [of 30]
  by (simp add: getRandomInt_def Math_random_def)

text \<open>
  C7. A width below 0 or above 53 gives \<open>NaN\<close>, the outcome of \<open>_getRandomInt\<close> that is
  not an unsigned integer (the source returns it, it throws nothing); a width from 0 to
  53 gives an integer \<open>v\<close> with \<open>0 \<le> v < 2^width\<close>, whatever the draws in \<open>[0, 1)\<close>.
\<close>

theorem getRandomInt_range:
  "(x < 0 \<or> 53 < x \<longrightarrow> fst (getRandomInt x g) = NaN) \<and>
   (rng_ok g \<and> 0 \<le> x \<and> x \<le> 53 \<longrightarrow>
      (\<exists>v. fst (getRandomInt x g) = Num v \<and> 0 \<le> v \<and> v < 2 ^ nat x))"
proof (intro conjI impI)
  assume "x < 0 \<or> 53 < x"
  then show "fst (getRandomInt x g) = NaN"
    by (auto simp: getRandomInt_def)
next
  assume h: "rng_ok g \<and> 0 \<le> x \<and> x \<le> 53"
  show "\<exists>v. fst (getRandomInt x g) = Num v \<and> 0 \<le> v \<and> v < 2 ^ nat x"
  proof (cases "x \<le> 30")
    case True
    then show ?thesis
      using h getRandomInt_small [of g x] draw_bits(2,3) [of "g 0" x] rng_ok_nth [of g 0]
      by simp
  next
    case False
    define lo where "lo = \<lfloor>g 0 * 2 ^ 30\<rfloor>"
    define hi where "hi = \<lfloor>g 1 * 2 ^ nat (x - 30)\<rfloor>"
    define P :: int where "P = 2 ^ nat (x - 30)"
    have lo: "0 \<le> lo" "lo < 1073741824"
      using h draw_bits(2,3) [of "g 0" 30] rng_ok_nth [of g 0] by (simp_all add: lo_def)
    have hi: "0 \<le> hi" "hi < P"
      using h False draw_bits(2,3) [of "g 1" "x - 30"] rng_ok_nth [of g 1]
      by (simp_all add: hi_def P_def)
    have e: "nat x = nat (x - 30) + 30" using False by linarith
    have "(2::int) ^ nat x = 2 ^ nat (x - 30) * 2 ^ 30"
      by (subst e) (rule power_add)
    then have split: "(2::int) ^ nat x = P * 1073741824" by (simp add: P_def)
    have "hi + 1 \<le> P" using hi by simp
    then have "(hi + 1) * 1073741824 \<le> P * 1073741824"
      by (rule mult_right_mono) simp
    then have "lo + hi * 1073741824 < 2 ^ nat x"
      using lo unfolding split by (simp add: algebra_simps)
    moreover have "0 \<le> lo + hi * 1073741824" using lo hi by simp
    moreover have "fst (getRandomInt x g) = Num (lo + hi * 1073741824)"
      using h False getRandomInt_large [of g x] by (simp add: lo_def hi_def)
    ultimately show ?thesis by blast
  qed
qed

theorem getRandomInt_range_witness:
  "fst (getRandomInt 54 (draws_const (1 / 2))) = NaN \<and>
   (\<exists>v. fst (getRandomInt 40 (draws_const (1 / 2))) = Num v \<and> 0 \<le> v \<and> v < 2 ^ nat 40)"
  using getRandomInt_range [of 54 "draws_const (1 / 2)"]
    getRandomInt_range [of 40 "draws_const (1 / 2)"]
  by (simp add: rng_ok_def draws_const_def)

subsection \<open>\<open>equals\<close>\<close>

lemma upt_6: "[0..<6] = [0, 1, 2, 3, 4, 5]"
  by (simp add: upt_rec)

lemma intFields_init: "intFields (init a b c d e f) = [a, b, c, d, e, f]"
  by (simp add: init_def upt_6 Let_def)

lemma equals_loop_Initialised:
  "equals_loop (Initialised u) (Initialised v) i
     = Inr (\<forall>j. i \<le> j \<and> j < 6 \<longrightarrow> field_at (intFields u) j = field_at (intFields v) j)"
proof (induction "6 - i" arbitrary: i)
  case 0
  then have "\<not> i < 6" by simp
  then show ?case by (subst equals_loop.simps) auto
next
  case (Suc n)
  then have lt: "i < 6" and n: "n = 6 - (i + 1)" by simp_all
  show ?case
  proof (cases "field_at (intFields u) i = field_at (intFields v) i")
    case False
    with lt show ?thesis
      by (subst equals_loop.simps) auto
  next
    case eq: True
    have "equals_loop (Initialised u) (Initialised v) i
        = equals_loop (Initialised u) (Initialised v) (i + 1)"
      using lt eq by (subst equals_loop.simps) simp
    also have "\<dots> = Inr (\<forall>j. i + 1 \<le> j \<and> j < 6 \<longrightarrow>
        field_at (intFields u) j = field_at (intFields v) j)"
      using n by (rule Suc.hyps(1))
    also have "(\<forall>j. i + 1 \<le> j \<and> j < 6 \<longrightarrow>
        field_at (intFields u) j = field_at (intFields v) j)
      = (\<forall>j. i \<le> j \<and> j < 6 \<longrightarrow> field_at (intFields u) j = field_at (intFields v) j)"
    proof (intro iffI allI impI)
      fix j
      assume a: "\<forall>j. i + 1 \<le> j \<and> j < 6 \<longrightarrow>
          field_at (intFields u) j = field_at (intFields v) j"
        and b: "i \<le> j \<and> j < 6"
      show "field_at (intFields u) j = field_at (intFields v) j"
      proof (cases "j = i")
        case True
        then show ?thesis using eq by simp
      next
        case False
        then have "i + 1 \<le> j \<and> j < 6" using b by simp
        then show ?thesis using a by blast
      qed
    next
      fix j
      assume a: "\<forall>j. i \<le> j \<and> j < 6 \<longrightarrow>
          field_at (intFields u) j = field_at (intFields v) j"
        and b: "i + 1 \<le> j \<and> j < 6"
      from b have "i \<le> j \<and> j < 6" by simp
      then show "field_at (intFields u) j = field_at (intFields v) j" using a by blast
    qed
    finally show ?thesis .
  qed
qed

lemma equals_loop_NewUUID:
  "equals_loop NewUUID w 0 = Inl TypeError"
  "equals_loop u NewUUID 0 = Inl TypeError"
  by (subst equals_loop.simps, simp split: option.split)+

lemma equals_Initialised:
  "equals (Initialised u) (UUIDObject (Initialised v))
     = Inr (\<forall>i<6. field_at (intFields u) i = field_at (intFields v) i)"
  by (simp add: equals_def equals_loop_Initialised)

lemma all_less_6:
  "(\<forall>i<6. P i) \<longleftrightarrow> P 0 \<and> P 1 \<and> P 2 \<and> P 3 \<and> P 4 \<and> P (5::nat)"
  by (simp add: eval_nat_numeral All_less_Suc conj_ac)

lemma field_at_6:
  assumes "length a = 6" "length b = 6"
  shows "(\<forall>i<6. field_at a i = field_at b i) \<longleftrightarrow> (\<forall>i<6. a ! i = b ! i)"
  using assms by (simp add: field_at_def)

text \<open>
  C10. For every object \<open>u\<close> of the class (initialised or not) and every argument \<open>x\<close>:
  when \<open>x\<close> is not an object of the class (\<open>null\<close> included), \<open>equals\<close> returns false
  and throws nothing. When \<open>x\<close> is an object \<open>w\<close> of the class, \<open>equals\<close> returns true
  exactly when both \<open>u\<close> and \<open>w\<close> have their fields and the six entries of
  \<open>intFields\<close> are equal, index by index; two initialised objects always get a boolean,
  which for objects as \<open>_init\<close> leaves them (six entries each) is the equality of the six
  integers. When \<open>u\<close> or \<open>w\<close> is a \<open>new UUID()\<close> on which \<open>_init\<close> was never called,
  it has no integer fields, and \<open>equals\<close> returns nothing: it throws a \<open>TypeError\<close>.
\<close>

theorem equals_fields:
  "((\<forall>w. x \<noteq> UUIDObject w) \<longrightarrow> equals u x = Inr False) \<and>
   (equals u (UUIDObject w) = Inr True \<longleftrightarrow>
      (\<exists>a b. u = Initialised a \<and> w = Initialised b \<and>
             (\<forall>i<6. field_at (intFields a) i = field_at (intFields b) i))) \<and>
   (equals (Initialised p) (UUIDObject (Initialised q))
      = Inr (\<forall>i<6. field_at (intFields p) i = field_at (intFields q) i)) \<and>
   (length (intFields p) = 6 \<and> length (intFields q) = 6 \<longrightarrow>
      equals (Initialised p) (UUIDObject (Initialised q))
        = Inr (\<forall>i<6. intFields p ! i = intFields q ! i)) \<and>
   (u = NewUUID \<or> w = NewUUID \<longrightarrow> equals u (UUIDObject w) = Inl TypeError)"
proof (intro conjI impI)
  assume "\<forall>w. x \<noteq> UUIDObject w"
  then show "equals u x = Inr False"
    by (cases x) (simp_all add: equals_def)
next
  show "equals u (UUIDObject w) = Inr True \<longleftrightarrow>
      (\<exists>a b. u = Initialised a \<and> w = Initialised b \<and>
             (\<forall>i<6. field_at (intFields a) i = field_at (intFields b) i))"
  proof (cases u)
    case NewUUID
    then show ?thesis by (simp add: equals_def equals_loop_NewUUID)
  next
    case u: (Initialised a)
    show ?thesis
    proof (cases w)
      case NewUUID
      then show ?thesis by (simp add: equals_def equals_loop_NewUUID)
    next
      case (Initialised b)
      then show ?thesis using u by (simp add: equals_Initialised)
    qed
  qed
next
  show "equals (Initialised p) (UUIDObject (Initialised q))
      = Inr (\<forall>i<6. field_at (intFields p) i = field_at (intFields q) i)"
    by (rule equals_Initialised)
next
  assume "length (intFields p) = 6 \<and> length (intFields q) = 6"
  then show "equals (Initialised p) (UUIDObject (Initialised q))
      = Inr (\<forall>i<6. intFields p ! i = intFields q ! i)"
    by (simp only: equals_Initialised field_at_6)
next
  assume "u = NewUUID \<or> w = NewUUID"
  then show "equals u (UUIDObject w) = Inl TypeError"
    by (auto simp: equals_def equals_loop_NewUUID)
qed

theorem equals_fields_witness:
  "equals (Initialised (init 1 2 3 4 5 6)) Null = Inr False \<and>
   equals NewUUID Null = Inr False \<and>
   equals (Initialised (init 1 2 3 4 5 6)) (UUIDObject (Initialised (init 1 2 3 4 5 6))) = Inr True \<and>
   equals (Initialised (init 1 2 3 4 5 6)) (UUIDObject (Initialised (init 1 2 3 4 5 7))) = Inr False \<and>
   equals (Initialised (init 1 2 3 4 5 6)) (UUIDObject NewUUID) = Inl TypeError \<and>
   equals NewUUID (UUIDObject (Initialised (init 1 2 3 4 5 6))) = Inl TypeError"
  using equals_fields [of Null "Initialised (init 1 2 3 4 5 6)" NewUUID
      "init 1 2 3 4 5 6" "init 1 2 3 4 5 6"]
    equals_fields [of Null NewUUID "Initialised (init 1 2 3 4 5 6)"
      "init 1 2 3 4 5 6" "init 1 2 3 4 5 7"]
  by (simp add: intFields_init all_less_6 field_at_def)

subsection \<open>The state machine of version 1\<close>

lemma rand_small:
  assumes "rng_ok g" "0 \<le> x" "x \<le> 30"
  shows "rand x g = (\<lfloor>g 0 * 2 ^ nat x\<rfloor>, \<lambda>n. g (Suc n))"
  using assms by (simp add: rand_def getRandomInt_small)

lemma rand_40:
  assumes "rng_ok g"
  shows "rand 40 g = (\<lfloor>g 0 * 2 ^ 30\<rfloor> + \<lfloor>g 1 * 2 ^ 10\<rfloor> * 2 ^ 30, \<lambda>n. g (Suc (Suc n)))"
  using assms getRandomInt_large [of g 40] by (simp add: rand_def)

lemma floor_draw:
  assumes "rng_ok g"
  shows "0 \<le> \<lfloor>g n * 2 ^ k\<rfloor>" and "\<lfloor>g n * 2 ^ k\<rfloor> < 2 ^ k"
proof -
  have r: "0 \<le> g n" "g n < 1" using assms rng_ok_nth [of g n] by simp_all
  show "0 \<le> \<lfloor>g n * 2 ^ k\<rfloor>" using r by simp
  have "g n * 2 ^ k < 2 ^ k" using r by simp
  then show "\<lfloor>g n * 2 ^ k\<rfloor> < 2 ^ k" by (simp add: floor_less_iff)
qed

lemma new_UUIDState_eq:
  assumes "rng_ok g"
  shows "fst (new_UUIDState g) =
    \<lparr> timestamp = 0, sequence = \<lfloor>g 0 * 2 ^ 14\<rfloor>,
      node = (\<lfloor>g 1 * 2 ^ 8\<rfloor> OR 1) * 2 ^ 40 + (\<lfloor>g 2 * 2 ^ 30\<rfloor> + \<lfloor>g 3 * 2 ^ 10\<rfloor> * 2 ^ 30),
      tick = \<lfloor>g 4 * 2 ^ 4\<rfloor> \<rparr>"
proof -
  have g1: "rng_ok (\<lambda>n. g (Suc n))" using assms by (rule rng_ok_Suc)
  have g2: "rng_ok (\<lambda>n. g (Suc (Suc n)))" using g1 by (rule rng_ok_Suc)
  have g4: "rng_ok (\<lambda>n. g (Suc (Suc (Suc (Suc n)))))" using g2 by (simp add: rng_ok_def)
  have idx: "g 1 = g (Suc 0)" "g 2 = g (Suc (Suc 0))" "g 3 = g (Suc (Suc (Suc 0)))"
    "g 4 = g (Suc (Suc (Suc (Suc 0))))"
    by (simp_all add: eval_nat_numeral)
  have n8: "0 \<le> \<lfloor>g 1 * 2 ^ 8\<rfloor>" "\<lfloor>g 1 * 2 ^ 8\<rfloor> < 2 ^ 8"
    using floor_draw [OF assms, of 1 8] by simp_all
  then have "js_or \<lfloor>g 1 * 2 ^ 8\<rfloor> 1 = \<lfloor>g 1 * 2 ^ 8\<rfloor> OR 1"
    by (intro js_or_small) simp_all
  then show ?thesis
    using rand_small [OF assms, of 14] rand_small [OF g1, of 8] rand_40 [OF g2]
      rand_small [OF g4, of 4]
    by (simp add: new_UUIDState_def idx)
qed


lemma genV1_state:
  assumes "rng_ok g"
  shows "snd (genV1 now g st) =
    (if now \<noteq> timestamp st then
       (st\<lparr> timestamp := now,
            sequence := (if now < timestamp st then sequence st + 1 else sequence st) mod 16384,
            tick := \<lfloor>g 0 * 2 ^ 4\<rfloor> \<rparr>, \<lambda>n. g (Suc n))
     else if g 0 < 1 / 4 \<and> tick st < 9984 then
       (st\<lparr> sequence := sequence st mod 16384,
            tick := tick st + (1 + \<lfloor>g 1 * 2 ^ 4\<rfloor>) \<rparr>, \<lambda>n. g (Suc (Suc n)))
     else (st\<lparr> sequence := (sequence st + 1) mod 16384 \<rparr>, \<lambda>n. g (Suc n)))"
  using rand_small [OF assms, of 4] rand_small [OF rng_ok_Suc [OF assms], of 4]
  by (simp add: genV1_def Let_def Math_random_def tsRatio_def js_and_3FFF)

lemma genV1_uuid:
  "fst (genV1 now g st) =
    (let st' = fst (snd (genV1 now g st)); tf = getTimeFieldValues (timestamp st')
     in init (tf_low tf + tick st') (tf_mid tf) (js_or (js_and (tf_hi tf) 0xFFF) 0x1000)
          (js_or (js_ushr (sequence st') 8) 0x80) (js_and (sequence st') 0xFF) (node st'))"
  by (simp add: genV1_def Let_def split_def)

lemma genV1_rng_ok:
  assumes "rng_ok g"
  shows "rng_ok (snd (snd (genV1 now g st)))"
  using rng_ok_Suc [OF assms] rng_ok_Suc [OF rng_ok_Suc [OF assms]]
  by (simp add: genV1_state [OF assms])

lemma genV1_timestamp:
  assumes "rng_ok g"
  shows "timestamp (fst (snd (genV1 now g st))) = now"
  by (simp add: genV1_state [OF assms])

lemma genV1_sequence_range:
  assumes "rng_ok g"
  shows "0 \<le> sequence (fst (snd (genV1 now g st)))"
    and "sequence (fst (snd (genV1 now g st))) < 16384"
  by (simp_all add: genV1_state [OF assms])

lemma genV1_node:
  assumes "rng_ok g"
  shows "node (fst (snd (genV1 now g st))) = node st"
  by (simp add: genV1_state [OF assms])

lemma reachable_sequence:
  assumes "reachable st"
  shows "0 \<le> sequence st \<and> sequence st < 16384"
  using assms
proof (induction rule: reachable.induct)
  case (loaded g)
  then show ?case
    using floor_draw [OF loaded, of 0 14] by (simp add: new_UUIDState_eq)
next
  case (generated st g now)
  then show ?case
    using genV1_sequence_range [of g now st] by simp
next
  case (reset st g)
  then show ?case
    using floor_draw [of g 0 14] by (simp add: resetState_def new_UUIDState_eq)
qed

lemma seq_fields_inj:
  assumes s: "0 \<le> s" "s < 16384" and s': "0 \<le> s'" "s' < 16384"
    and hi: "js_or (js_ushr s 8) 0x80 = js_or (js_ushr s' 8) 0x80"
    and lo: "js_and s 0xFF = js_and s' 0xFF"
  shows "s = s'"
proof -
  have d: "js_ushr s 8 = s div 256" "js_ushr s' 8 = s' div 256"
    using s s' by (simp_all add: js_ushr_small)
  have r: "0 \<le> s div 256" "s div 256 < 64" "0 \<le> s' div 256" "s' div 256 < 64"
    using s s' by simp_all
  have "js_or (s div 256) 128 = s div 256 + 128" "js_or (s' div 256) 128 = s' div 256 + 128"
    using r by (simp_all add: js_or_small or_128)
  then have "s div 256 = s' div 256" using hi d by simp
  moreover have "s mod 256 = s' mod 256" using lo by (simp add: js_and_FF)
  ultimately show ?thesis
    by (metis div_mult_mod_eq)
qed

lemma draws_const_apply: "draws_const r n = r"
  by (simp add: draws_const_def)

lemma floor_rat_numeral: "\<lfloor>(numeral a :: rat) / numeral b\<rfloor> = numeral a div numeral b"
  using floor_divide_of_int_eq [where ?'a = rat, of "numeral a" "numeral b"] by simp

lemma rng_ok_half: "rng_ok (draws_const (1 / 2))"
  by (simp add: rng_ok_draws_const)

lemma rng_ok_top: "rng_ok (draws_const (32767 / 32768))"
  by (simp add: rng_ok_draws_const)

lemma rng_ok_zero: "rng_ok (draws_const 0)"
  by (simp add: rng_ok_draws_const)

lemma reachable_state_mid: "reachable state_mid"
  unfolding state_mid_def by (intro reachable.generated reachable.loaded rng_ok_half)

lemma reachable_state_top: "reachable state_top"
  unfolding state_top_def by (intro reachable.generated reachable.loaded rng_ok_top)

lemma state_mid_eq:
  "state_mid = \<lparr> timestamp = 1000, sequence = 8192, node = 142387292667904, tick = 8 \<rparr>"
  unfolding state_mid_def
  by (simp add: genV1_state [OF rng_ok_half] new_UUIDState_eq [OF rng_ok_half] draws_const_apply)

lemma state_top_eq:
  "state_top = \<lparr> timestamp = 1000, sequence = 16383, node = 281474976677888, tick = 15 \<rparr>"
  unfolding state_top_def
  by (simp add: genV1_state [OF rng_ok_top] new_UUIDState_eq [OF rng_ok_top] draws_const_apply
      floor_rat_numeral)

text \<open>
  C1. Two calls of \<open>genV1\<close> that read the same clock value never return objects equal
  on all six integer fields, from any state (reachable or not) and whatever the draws:
  the second call either advances the tick, which changes \<open>timeLow\<close> (field 0), or
  increments the sequence modulo \<open>2^14\<close>, which changes \<open>clockSeqHiAndReserved\<close> or
  \<open>clockSeqLow\<close> (fields 3 and 4).
\<close>

theorem genV1_same_clock_distinct:
  assumes "rng_ok g"
  shows "let (u1, st1, g1) = genV1 now g st; (u2, st2, g2) = genV1 now g1 st1
         in equals (Initialised u1) (UUIDObject (Initialised u2)) = Inr False \<and>
            ((tick st1 < tick st2 \<and> intFields u1 ! 0 \<noteq> intFields u2 ! 0) \<or>
             (sequence st2 = (sequence st1 + 1) mod 16384 \<and>
              (intFields u1 ! 3 \<noteq> intFields u2 ! 3 \<or> intFields u1 ! 4 \<noteq> intFields u2 ! 4)))"
proof -
  define u1 where "u1 = fst (genV1 now g st)"
  define st1 where "st1 = fst (snd (genV1 now g st))"
  define g1 where "g1 = snd (snd (genV1 now g st))"
  define u2 where "u2 = fst (genV1 now g1 st1)"
  define st2 where "st2 = fst (snd (genV1 now g1 st1))"
  define tf where "tf = getTimeFieldValues now"
  have g1: "rng_ok g1" unfolding g1_def using assms by (rule genV1_rng_ok)
  have t1: "timestamp st1 = now" unfolding st1_def using assms by (rule genV1_timestamp)
  have t2: "timestamp st2 = now" unfolding st2_def using g1 by (rule genV1_timestamp)
  have s1: "0 \<le> sequence st1" "sequence st1 < 16384"
    unfolding st1_def using genV1_sequence_range [OF assms] by simp_all
  have s2: "0 \<le> sequence st2" "sequence st2 < 16384"
    unfolding st2_def using genV1_sequence_range [OF g1] by simp_all
  have f1: "intFields u1 = [tf_low tf + tick st1, tf_mid tf, js_or (js_and (tf_hi tf) 0xFFF) 0x1000,
      js_or (js_ushr (sequence st1) 8) 0x80, js_and (sequence st1) 0xFF, node st1]"
    unfolding u1_def by (simp add: genV1_uuid Let_def intFields_init st1_def [symmetric] t1 tf_def)
  have f2: "intFields u2 = [tf_low tf + tick st2, tf_mid tf, js_or (js_and (tf_hi tf) 0xFFF) 0x1000,
      js_or (js_ushr (sequence st2) 8) 0x80, js_and (sequence st2) 0xFF, node st2]"
    unfolding u2_def by (simp add: genV1_uuid Let_def intFields_init st2_def [symmetric] t2 tf_def)
  have step: "(tick st1 < tick st2 \<and> sequence st2 = sequence st1) \<or>
      (sequence st2 = (sequence st1 + 1) mod 16384 \<and> tick st2 = tick st1)"
  proof (cases "g1 0 < 1 / 4 \<and> tick st1 < 9984")
    case True
    define k where "k = \<lfloor>g1 1 * 2 ^ 4\<rfloor>"
    have k: "0 \<le> k" unfolding k_def by (rule floor_draw [OF g1])
    have "tick st2 = tick st1 + (1 + k)" "sequence st2 = sequence st1 mod 16384"
      using True unfolding st2_def k_def by (simp_all add: genV1_state [OF g1] t1)
    then show ?thesis
      using k s1 by simp
  next
    case False
    then show ?thesis
      unfolding st2_def by (auto simp: genV1_state [OF g1] t1)
  qed
  have fields: "(tick st1 < tick st2 \<and> intFields u1 ! 0 \<noteq> intFields u2 ! 0) \<or>
      (sequence st2 = (sequence st1 + 1) mod 16384 \<and>
       (intFields u1 ! 3 \<noteq> intFields u2 ! 3 \<or> intFields u1 ! 4 \<noteq> intFields u2 ! 4))"
  proof (cases "tick st1 < tick st2")
    case True
    then show ?thesis by (simp add: f1 f2)
  next
    case False
    then have sq: "sequence st2 = (sequence st1 + 1) mod 16384" using step by auto
    have "sequence st1 \<noteq> sequence st2"
    proof (cases "sequence st1 = 16383")
      case True
      then show ?thesis using sq by simp
    next
      case False
      then have "(sequence st1 + 1) mod 16384 = sequence st1 + 1" using s1 by simp
      then show ?thesis using sq by simp
    qed
    then have "js_or (js_ushr (sequence st1) 8) 0x80 \<noteq> js_or (js_ushr (sequence st2) 8) 0x80
        \<or> js_and (sequence st1) 0xFF \<noteq> js_and (sequence st2) 0xFF"
      using seq_fields_inj [OF s1 s2] by blast
    then show ?thesis using sq by (simp add: f1 f2)
  qed
  have len: "length (intFields u1) = 6" "length (intFields u2) = 6"
    by (simp_all add: f1 f2)
  have "\<not> (\<forall>i<6. intFields u1 ! i = intFields u2 ! i)"
  proof
    assume "\<forall>i<6. intFields u1 ! i = intFields u2 ! i"
    then have "intFields u1 ! 0 = intFields u2 ! 0" "intFields u1 ! 3 = intFields u2 ! 3"
      "intFields u1 ! 4 = intFields u2 ! 4" by simp_all
    then show False using fields by simp
  qed
  then have "equals (Initialised u1) (UUIDObject (Initialised u2)) = Inr False"
    by (simp only: equals_Initialised field_at_6 [OF len])
  then show ?thesis
    using fields by (simp add: split_def u1_def u2_def st1_def st2_def g1_def)
qed

theorem genV1_same_clock_distinct_witness:
  "rng_ok (draws_const (1 / 2)) \<and>
   (let (u1, st1, g1) = genV1 1000 (draws_const (1 / 2)) state0;
        (u2, st2, g2) = genV1 1000 g1 st1
    in equals (Initialised u1) (UUIDObject (Initialised u2)) = Inr False \<and>
       ((tick st1 < tick st2 \<and> intFields u1 ! 0 \<noteq> intFields u2 ! 0) \<or>
        (sequence st2 = (sequence st1 + 1) mod 16384 \<and>
         (intFields u1 ! 3 \<noteq> intFields u2 ! 3 \<or> intFields u1 ! 4 \<noteq> intFields u2 ! 4))))"
  using genV1_same_clock_distinct [OF rng_ok_half, of 1000 state0] rng_ok_half
  by simp

text \<open>
  C3, amended. When the clock read is below the stored timestamp, the sequence of a
  reachable state advances by one modulo \<open>2^14\<close>: it grows by one, except that 16383
  wraps to 0 (the mask \<open>st.sequence &= 0x3FFF\<close>).
\<close>

theorem genV1_clock_backward:
  assumes "reachable st" "rng_ok g" "now < timestamp st"
  shows "sequence (fst (snd (genV1 now g st))) = (sequence st + 1) mod 16384 \<and>
         sequence (fst (snd (genV1 now g st))) = (if sequence st = 16383 then 0 else sequence st + 1)"
proof -
  have s: "0 \<le> sequence st" "sequence st < 16384"
    using reachable_sequence [OF assms(1)] by simp_all
  have eq: "sequence (fst (snd (genV1 now g st))) = (sequence st + 1) mod 16384"
    using assms(3) by (simp add: genV1_state [OF assms(2)])
  show ?thesis
  proof (cases "sequence st = 16383")
    case True
    then show ?thesis using eq by simp
  next
    case False
    then have "(sequence st + 1) mod 16384 = sequence st + 1" using s by simp
    then show ?thesis using eq False by simp
  qed
qed

text \<open>
  C3 as stated fails: in the reachable state \<open>state_top\<close> the sequence is 16383, and a
  call that reads the clock value 999, below the stored 1000, leaves it at 0.
\<close>

theorem genV1_clock_backward_wraps:
  "reachable state_top \<and> rng_ok (draws_const 0) \<and> 999 < timestamp state_top \<and>
   sequence state_top = 16383 \<and> sequence (fst (snd (genV1 999 (draws_const 0) state_top))) = 0"
  using reachable_state_top rng_ok_zero
  by (simp add: genV1_state [OF rng_ok_zero] state_top_eq)

theorem genV1_clock_backward_witness:
  "reachable state_mid \<and> rng_ok (draws_const 0) \<and> 999 < timestamp state_mid \<and>
   sequence state_mid = 8192 \<and> sequence (fst (snd (genV1 999 (draws_const 0) state_mid))) = 8193"
  using genV1_clock_backward [OF reachable_state_mid rng_ok_zero, of 999]
    reachable_state_mid rng_ok_zero
  by (simp add: state_mid_eq)

lemma new_UUIDState_node:
  assumes "rng_ok g"
  shows "0 \<le> node (fst (new_UUIDState g))" and "node (fst (new_UUIDState g)) < 2 ^ 48"
    and "bit (node (fst (new_UUIDState g))) 40"
proof -
  define n8 where "n8 = \<lfloor>g 1 * 2 ^ 8\<rfloor> OR 1"
  define lo where "lo = \<lfloor>g 2 * 2 ^ 30\<rfloor>"
  define hi where "hi = \<lfloor>g 3 * 2 ^ 10\<rfloor>"
  have n8: "0 \<le> n8" "n8 < 256" "odd n8"
  proof -
    have a: "0 \<le> \<lfloor>g 1 * 2 ^ 8\<rfloor>" "\<lfloor>g 1 * 2 ^ 8\<rfloor> < 2 ^ 8"
      using floor_draw [OF assms, of 1 8] by simp_all
    show "0 \<le> n8" unfolding n8_def using a by simp
    have "\<lfloor>g 1 * 2 ^ 8\<rfloor> OR 1 < 2 ^ 8" using a by (intro OR_upper) simp_all
    then show "n8 < 256" unfolding n8_def by simp
    show "odd n8" unfolding n8_def by (simp add: even_or_iff)
  qed
  have lo: "0 \<le> lo" "lo < 1073741824"
    unfolding lo_def using floor_draw [OF assms, of 2 30] by simp_all
  have hi: "0 \<le> hi" "hi < 1024"
    unfolding hi_def using floor_draw [OF assms, of 3 10] by simp_all
  define n40 where "n40 = lo + hi * 1073741824"
  have n40: "0 \<le> n40" "n40 < 1099511627776" unfolding n40_def using lo hi by simp_all
  define nd where "nd = n8 * 1099511627776 + n40"
  have nd: "0 \<le> nd" "nd < 281474976710656" unfolding nd_def using n8 n40 by simp_all
  have "nd div 1099511627776 = n8" unfolding nd_def using n40 by simp
  then have "odd (nd div 2 ^ 40)" using n8 by simp
  then have b: "bit nd 40" by (simp add: bit_iff_odd)
  have node: "node (fst (new_UUIDState g)) = nd"
    by (simp add: new_UUIDState_eq [OF assms] nd_def n40_def n8_def lo_def hi_def)
  show "0 \<le> node (fst (new_UUIDState g))" "node (fst (new_UUIDState g)) < 2 ^ 48"
    "bit (node (fst (new_UUIDState g))) 40"
    using nd b by (simp_all add: node)
qed

lemma genV1_tick_range:
  assumes "rng_ok g" "0 \<le> tick st" "tick st < 10000"
  shows "0 \<le> tick (fst (snd (genV1 now g st)))" and "tick (fst (snd (genV1 now g st))) < 10000"
proof -
  define k0 where "k0 = \<lfloor>g 0 * 2 ^ 4\<rfloor>"
  define k1 where "k1 = \<lfloor>g 1 * 2 ^ 4\<rfloor>"
  have k: "0 \<le> k0" "k0 < 16" "0 \<le> k1" "k1 < 16"
    using floor_draw [OF assms(1), of 0 4] floor_draw [OF assms(1), of 1 4]
    by (simp_all add: k0_def k1_def)
  have "tick (fst (snd (genV1 now g st))) =
      (if now \<noteq> timestamp st then k0
       else if g 0 < 1 / 4 \<and> tick st < 9984 then tick st + (1 + k1) else tick st)"
    by (simp add: genV1_state [OF assms(1)] k0_def k1_def)
  then show "0 \<le> tick (fst (snd (genV1 now g st)))"
    and "tick (fst (snd (genV1 now g st))) < 10000"
    using k assms(2,3) by (auto split: if_splits)
qed

lemma reachable_ranges:
  assumes "reachable st"
  shows "0 \<le> tick st \<and> tick st < 10000 \<and> 0 \<le> node st \<and> node st < 2 ^ 48 \<and> bit (node st) 40"
  using assms
proof (induction rule: reachable.induct)
  case (loaded g)
  have "0 \<le> \<lfloor>g 4 * 2 ^ 4\<rfloor>" "\<lfloor>g 4 * 2 ^ 4\<rfloor> < 2 ^ 4" by (rule floor_draw [OF loaded])+
  moreover have "tick (fst (new_UUIDState g)) = \<lfloor>g 4 * 2 ^ 4\<rfloor>"
    by (simp add: new_UUIDState_eq [OF loaded])
  ultimately show ?case using new_UUIDState_node [OF loaded] by simp
next
  case (generated st g now)
  then show ?case
    using genV1_tick_range [of g st now] genV1_node [of g now st] by simp
next
  case (reset st g)
  have "0 \<le> \<lfloor>g 4 * 2 ^ 4\<rfloor>" "\<lfloor>g 4 * 2 ^ 4\<rfloor> < 2 ^ 4" by (rule floor_draw [OF reset(2)])+
  moreover have "tick (fst (new_UUIDState g)) = \<lfloor>g 4 * 2 ^ 4\<rfloor>"
    by (simp add: new_UUIDState_eq [OF reset(2)])
  ultimately show ?case using new_UUIDState_node [OF reset(2)] by (simp add: resetState_def)
qed

text \<open>
  C9, amended. After \<open>resetState\<close>, whatever the state before, \<open>timestamp\<close> is 0 and
  \<open>sequence\<close>, \<open>node\<close> and \<open>tick\<close> are fresh random values given by the next five
  draws: a 14-bit sequence, a 48-bit node whose multicast bit (bit 40) is 1, and a tick
  in \<open>[0, 16)\<close>.
\<close>

theorem resetState_fresh:
  assumes "rng_ok g"
  shows "let st' = fst (resetState g st)
         in timestamp st' = 0 \<and>
            sequence st' = \<lfloor>g 0 * 2 ^ 14\<rfloor> \<and> 0 \<le> sequence st' \<and> sequence st' < 2 ^ 14 \<and>
            node st' = (\<lfloor>g 1 * 2 ^ 8\<rfloor> OR 1) * 2 ^ 40 + (\<lfloor>g 2 * 2 ^ 30\<rfloor> + \<lfloor>g 3 * 2 ^ 10\<rfloor> * 2 ^ 30) \<and>
            0 \<le> node st' \<and> node st' < 2 ^ 48 \<and> bit (node st') 40 \<and>
            tick st' = \<lfloor>g 4 * 2 ^ 4\<rfloor> \<and> 0 \<le> tick st' \<and> tick st' < 2 ^ 4"
proof -
  have sq: "0 \<le> \<lfloor>g 0 * 2 ^ 14\<rfloor>" "\<lfloor>g 0 * 2 ^ 14\<rfloor> < 2 ^ 14"
    by (rule floor_draw [OF assms])+
  have tk: "0 \<le> \<lfloor>g 4 * 2 ^ 4\<rfloor>" "\<lfloor>g 4 * 2 ^ 4\<rfloor> < 2 ^ 4"
    by (rule floor_draw [OF assms])+
  have fields: "timestamp (fst (resetState g st)) = 0"
    "sequence (fst (resetState g st)) = \<lfloor>g 0 * 2 ^ 14\<rfloor>"
    "tick (fst (resetState g st)) = \<lfloor>g 4 * 2 ^ 4\<rfloor>"
    "node (fst (resetState g st)) =
       (\<lfloor>g 1 * 2 ^ 8\<rfloor> OR 1) * 2 ^ 40 + (\<lfloor>g 2 * 2 ^ 30\<rfloor> + \<lfloor>g 3 * 2 ^ 10\<rfloor> * 2 ^ 30)"
    by (simp_all add: resetState_def new_UUIDState_eq [OF assms])
  have nd: "0 \<le> node (fst (resetState g st))" "node (fst (resetState g st)) < 2 ^ 48"
    "bit (node (fst (resetState g st))) 40"
    unfolding resetState_def by (rule new_UUIDState_node [OF assms])+
  show ?thesis
    unfolding Let_def
    using sq tk nd fields(4) by (simp only: fields(1-3) simp_thms)
qed

text \<open>C9 as stated fails: with every draw equal to \<open>1/2\<close> the tick after the reset is 8.\<close>

theorem resetState_tick_not_zero:
  "rng_ok (draws_const (1 / 2)) \<and> tick (fst (resetState (draws_const (1 / 2)) state0)) = 8"
  using rng_ok_half
  by (simp add: resetState_def new_UUIDState_eq [OF rng_ok_half] draws_const_apply)

theorem resetState_fresh_witness:
  "rng_ok (draws_const (1 / 2)) \<and>
   fst (resetState (draws_const (1 / 2)) state0) =
     \<lparr> timestamp = 0, sequence = 8192, node = 142387292667904, tick = 8 \<rparr> \<and>
   bit (node (fst (resetState (draws_const (1 / 2)) state0))) 40"
  using resetState_fresh [OF rng_ok_half, of state0] rng_ok_half
  by (simp add: Let_def draws_const_apply UUIDState.equality)

subsection \<open>The aligner and the fields of an object\<close>

lemma js_and_1: "0 \<le> i \<Longrightarrow> (js_and i 1 \<noteq> 0) = odd i"
  using js_and_mask [of 1 i] and_mask_int [of i 1] by (simp add: odd_iff_mod_2_eq_one)

lemma concat_replicate_double: "concat (replicate n (z @ z)) = concat (replicate (2 * n) z)"
  by (induction n) simp_all

lemma aligner_loop_eq:
  "0 \<le> i \<Longrightarrow> i < 4294967296 \<Longrightarrow> aligner_loop i z str = concat (replicate (nat i) z) @ str"
proof (induction i z str rule: aligner_loop.induct)
  case (1 i z str)
  show ?case
  proof (cases "0 < i")
    case False
    then show ?thesis using "1.prems" by (subst aligner_loop.simps) simp
  next
    case True
    have half: "js_ushr i 1 = i div 2" using "1.prems" by (simp add: js_ushr_small)
    have odd: "(js_and i 1 \<noteq> 0) = odd i" using "1.prems" by (simp add: js_and_1)
    have r: "0 \<le> i div 2" "i div 2 < 4294967296" using "1.prems" by simp_all
    have IH: "aligner_loop (i div 2) (z @ z) (if odd i then z @ str else str)
        = concat (replicate (nat (i div 2)) (z @ z)) @ (if odd i then z @ str else str)"
      using "1.IH" [OF True] r half odd by simp
    have n: "nat i = 2 * nat (i div 2) + (if odd i then 1 else 0)"
      using True by (auto simp: nat_mult_distrib elim!: oddE evenE)
    have "aligner_loop i z str = aligner_loop (i div 2) (z @ z) (if odd i then z @ str else str)"
      using True half odd by (subst aligner_loop.simps) simp
    also have "\<dots> = concat (replicate (2 * nat (i div 2)) z) @ (if odd i then z @ str else str)"
      by (simp only: IH concat_replicate_double)
    also have "\<dots> = concat (replicate (nat i) z) @ str"
      by (subst n) (auto simp: replicate_add)
    finally show ?thesis .
  qed
qed

lemma aligner_loop_nonpos: "i \<le> 0 \<Longrightarrow> aligner_loop i z str = str"
  by (subst aligner_loop.simps) simp

lemma js_zero: "js ''0'' = [48]"
  by (simp add: js_def)

lemma getIntAligner_eq:
  assumes "len < 4294967296"
  shows "getIntAligner radix num len =
    replicate (nat (len - int (length (toString num radix)))) 48 @ toString num radix"
proof (cases "0 \<le> len - int (length (toString num radix))")
  case True
  then have "len - int (length (toString num radix)) < 4294967296" using assms by simp
  then show ?thesis
    using True by (simp add: getIntAligner_def Let_def aligner_loop_eq js_zero)
next
  case False
  then show ?thesis
    by (simp add: getIntAligner_def Let_def aligner_loop_nonpos)
qed

lemma digits_nonempty: "digits radix n \<noteq> []"
  by (subst digits.simps) simp

lemma digits_length:
  "2 \<le> radix \<Longrightarrow> 0 < k \<Longrightarrow> (length (digits radix n) \<le> k) = (n < radix ^ k)"
proof (induction radix n arbitrary: k rule: digits.induct)
  case (1 radix n)
  show ?case
  proof (cases "n < radix")
    case True
    have "radix ^ 1 \<le> radix ^ k" using "1.prems" by (intro power_increasing) simp_all
    then have "n < radix ^ k" using True by simp
    then show ?thesis using True "1.prems" by (subst digits.simps) simp
  next
    case False
    have len: "length (digits radix n) = Suc (length (digits radix (n div radix)))"
      using False "1.prems" by (subst digits.simps) simp
    show ?thesis
    proof (cases "k = 1")
      case True
      then show ?thesis using False len digits_nonempty [of radix "n div radix"] by simp
    next
      case k: False
      then obtain j where j: "k = Suc j" "0 < j" using "1.prems" by (cases k) auto
      have "(length (digits radix (n div radix)) \<le> j) = (n div radix < radix ^ j)"
        using "1.IH" [of j] False "1.prems" j by simp
      also have "\<dots> = (n < radix ^ j * radix)"
        using "1.prems" by (simp add: div_less_iff_less_mult)
      finally show ?thesis using len j by (simp add: mult.commute)
    qed
  qed
qed

lemma toString_length:
  assumes "0 \<le> v" "0 < k"
  shows "(length (toString v 2) \<le> k) = (v < 2 ^ k)"
    and "(length (toString v 16) \<le> k) = (v < 16 ^ k)"
proof -
  have a: "(nat v < 2 ^ k) = (v < 2 ^ k)" "(nat v < 16 ^ k) = (v < 16 ^ k)"
    using assms by (simp_all add: nat_less_iff)
  show "(length (toString v 2) \<le> k) = (v < 2 ^ k)"
    using assms a by (simp add: toString_def digits_length)
  show "(length (toString v 16) \<le> k) = (v < 16 ^ k)"
    using assms a by (simp add: toString_def digits_length)
qed

text \<open>The aligner pads to the length and never cuts.\<close>

lemma aligner_length:
  assumes "0 \<le> v" "0 < k" "k < 64"
  shows "v < 2 ^ k \<Longrightarrow> length (binAligner v (int k)) = k"
    and "2 ^ k \<le> v \<Longrightarrow> binAligner v (int k) = toString v 2 \<and> k < length (toString v 2)"
    and "v < 16 ^ k \<Longrightarrow> length (hexAligner v (int k)) = k"
    and "16 ^ k \<le> v \<Longrightarrow> hexAligner v (int k) = toString v 16 \<and> k < length (toString v 16)"
proof -
  have len: "int k < 4294967296" using assms(3) by simp
  have bin: "binAligner v (int k) = replicate (k - length (toString v 2)) 48 @ toString v 2"
    using getIntAligner_eq [OF len, of 2 v] by (simp add: binAligner_def nat_diff_distrib)
  have hex: "hexAligner v (int k) = replicate (k - length (toString v 16)) 48 @ toString v 16"
    using getIntAligner_eq [OF len, of 16 v] by (simp add: hexAligner_def nat_diff_distrib)
  note tl = toString_length [OF assms(1,2)]
  show "v < 2 ^ k \<Longrightarrow> length (binAligner v (int k)) = k"
    using tl(1) by (simp add: bin)
  show "2 ^ k \<le> v \<Longrightarrow> binAligner v (int k) = toString v 2 \<and> k < length (toString v 2)"
    using tl(1) by (simp add: bin)
  show "v < 16 ^ k \<Longrightarrow> length (hexAligner v (int k)) = k"
    using tl(2) by (simp add: hex)
  show "16 ^ k \<le> v \<Longrightarrow> hexAligner v (int k) = toString v 16 \<and> k < length (toString v 16)"
    using tl(2) by (simp add: hex)
qed

lemma fields_init:
  "bitFields (init a b c d e f) =
     [binAligner a 32, binAligner b 16, binAligner c 16, binAligner d 8, binAligner e 8,
      binAligner f 48]"
  "hexFields (init a b c d e f) =
     [hexAligner a 8, hexAligner b 4, hexAligner c 4, hexAligner d 2, hexAligner e 2,
      hexAligner f 12]"
  by (simp_all add: init_def Let_def upt_6 FIELD_SIZES_def)

lemma digits_step: "digits radix n =
     (if radix < 2 \<or> n < radix then [digit_unit n]
      else digits radix (n div radix) @ [digit_unit (n mod radix)])"
  by (rule digits.simps)

lemma t1: "toString 4294967296 16 = js ''100000000''"
  by (simp add: toString_def digits_step digit_unit_def js_def)

lemma t2: "length (toString 4294967296 2) = 33"
  by (simp add: toString_def digits_step digit_unit_def js_def)

text \<open>
  C8, amended. Constructing an object never fails, and the aligner never truncates: a
  field value of at least \<open>2^width\<close> (and below \<open>10^21\<close>, where \<open>parseInt\<close> reads
  the argument back whole) is stored as its full binary and hexadecimal representation,
  longer than the declared \<open>width\<close> bits and \<open>width / 4\<close> digits. The strings have
  the declared lengths when the value is below \<open>2^width\<close>.
\<close>

theorem init_oversized:
  assumes "length vs = 6" "i < 6" "0 \<le> vs ! i" "vs ! i < 10 ^ 21"
  shows "let u = init (vs ! 0) (vs ! 1) (vs ! 2) (vs ! 3) (vs ! 4) (vs ! 5);
             w = nat (FIELD_SIZES ! i)
         in (vs ! i < 2 ^ w \<longrightarrow>
               length (bitFields u ! i) = w \<and> length (hexFields u ! i) = w div 4) \<and>
            (2 ^ w \<le> vs ! i \<longrightarrow>
               bitFields u ! i = toString (vs ! i) 2 \<and> w < length (bitFields u ! i) \<and>
               hexFields u ! i = toString (vs ! i) 16 \<and> w div 4 < length (hexFields u ! i))"
proof -
  have pw: "(2::int) ^ 32 = 16 ^ 8" "(2::int) ^ 16 = 16 ^ 4" "(2::int) ^ 8 = 16 ^ 2"
    "(2::int) ^ 48 = 16 ^ 12" by simp_all
  consider "i = 0" | "i = 1" | "i = 2" | "i = 3" | "i = 4" | "i = 5"
    using assms(2) by linarith
  then show ?thesis
  proof cases
    case 1
    then show ?thesis
      using assms(3) aligner_length(1,2) [of "vs ! 0" 32] aligner_length(3,4) [of "vs ! 0" 8]
      by (simp add: fields_init FIELD_SIZES_def Let_def)
  next
    case 2
    then show ?thesis
      using assms(3) aligner_length(1,2) [of "vs ! 1" 16] aligner_length(3,4) [of "vs ! 1" 4]
      by (simp add: fields_init FIELD_SIZES_def Let_def)
  next
    case 3
    then show ?thesis
      using assms(3) aligner_length(1,2) [of "vs ! 2" 16] aligner_length(3,4) [of "vs ! 2" 4]
      by (simp add: fields_init FIELD_SIZES_def Let_def)
  next
    case 4
    then show ?thesis
      using assms(3) aligner_length(1,2) [of "vs ! 3" 8] aligner_length(3,4) [of "vs ! 3" 2]
      by (simp add: fields_init FIELD_SIZES_def Let_def)
  next
    case 5
    then show ?thesis
      using assms(3) aligner_length(1,2) [of "vs ! 4" 8] aligner_length(3,4) [of "vs ! 4" 2]
      by (simp add: fields_init FIELD_SIZES_def Let_def)
  next
    case 6
    then show ?thesis
      using assms(3) aligner_length(1,2) [of "vs ! 5" 48] aligner_length(3,4) [of "vs ! 5" 12]
      by (simp add: fields_init FIELD_SIZES_def Let_def)
  qed
qed

text \<open>
  C8 as stated fails: \<open>timeLow = 2^32\<close> is stored as the nine digits \<open>100000000\<close> and
  as 33 bits.
\<close>

theorem init_oversized_not_truncated:
  "length (hexFields (init 4294967296 0 0 0 0 0) ! 0) = 9 \<and>
   length (bitFields (init 4294967296 0 0 0 0 0) ! 0) = 33 \<and>
   hexFields (init 4294967296 0 0 0 0 0) ! 0 = js ''100000000''"
  using aligner_length(2) [of 4294967296 32] aligner_length(4) [of 4294967296 8]
  by (simp add: fields_init t1 t2 js_def)

theorem init_oversized_witness:
  "length [4294967296, 0, 0, 0, 0, 255 :: int] = 6 \<and>
   8 < length (hexFields (init 4294967296 0 0 0 0 255) ! 0) \<and>
   length (hexFields (init 4294967296 0 0 0 0 255) ! 5) = 12"
  using init_oversized [of "[4294967296, 0, 0, 0, 0, 255]" 0]
    init_oversized [of "[4294967296, 0, 0, 0, 0, 255]" 5]
  by (simp add: Let_def FIELD_SIZES_def t1 js_def)

subsection \<open>Hexadecimal digits\<close>

lemma js_literals:
  "js ''-'' = [45]" "js ''{'' = [123]" "js ''}'' = [125]"
  "js ''urn:uuid:'' = [117, 114, 110, 58, 117, 117, 105, 100, 58]"
  by (simp_all add: js_def)

lemma is_lower_hex_is_hex: "is_lower_hex c \<Longrightarrow> is_hex c"
  by (auto simp: is_lower_hex_def is_hex_def)

lemma digit_unit_hex: "d < 16 \<Longrightarrow> is_lower_hex (digit_unit d)"
  by (auto simp: is_lower_hex_def digit_unit_def)

lemma hex_value_digit_unit: "d < 16 \<Longrightarrow> hex_value (digit_unit d) = int d"
  by (auto simp: hex_value_def digit_unit_def)

lemma parseInt16_snoc: "parseInt16 (s @ [c]) = parseInt16 s * 16 + hex_value c"
  by (simp add: parseInt16_def)

lemma parseInt16_zeros: "parseInt16 (replicate k 48 @ s) = parseInt16 s"
  by (induction k) (simp_all add: parseInt16_def hex_value_def)

lemma digits_16:
  "list_all is_lower_hex (digits 16 n) \<and> parseInt16 (digits 16 n) = int n"
proof (induction "16::nat" n rule: digits.induct)
  case (1 n)
  show ?case
  proof (cases "n < 16")
    case True
    then show ?thesis
      by (subst (1 2) digits.simps) (simp add: digit_unit_hex hex_value_digit_unit parseInt16_def)
  next
    case False
    have m: "n mod 16 < 16" by simp
    have eq: "digits 16 n = digits 16 (n div 16) @ [digit_unit (n mod 16)]"
      using False by (subst digits.simps) simp
    have IH: "list_all is_lower_hex (digits 16 (n div 16))"
      "parseInt16 (digits 16 (n div 16)) = int (n div 16)"
      using "1.hyps" False by simp_all
    have "int (n div 16) * 16 + int (n mod 16) = int n"
      by (simp add: zdiv_int zmod_int)
    then show ?thesis
      using IH m by (simp add: eq parseInt16_snoc digit_unit_hex hex_value_digit_unit)
  qed
qed

lemma is_lower_hex_48: "is_lower_hex 48"
  by (simp add: is_lower_hex_def)

lemma hexAligner_fit:
  assumes "0 \<le> v" "v < 16 ^ k" "0 < k" "k < 64"
  shows "length (hexAligner v (int k)) = k"
    and "list_all is_lower_hex (hexAligner v (int k))"
    and "parseInt16 (hexAligner v (int k)) = v"
proof -
  have len: "int k < 4294967296" using assms(4) by simp
  have hex: "hexAligner v (int k) = replicate (k - length (digits 16 (nat v))) 48 @ digits 16 (nat v)"
    using getIntAligner_eq [OF len, of 16 v] assms(1)
    by (simp add: hexAligner_def nat_diff_distrib toString_def)
  show "length (hexAligner v (int k)) = k"
    using aligner_length(3) [OF assms(1,3,4)] assms(2) by simp
  show "list_all is_lower_hex (hexAligner v (int k))"
    using digits_16 [of "nat v"] by (auto simp: hex list_all_iff is_lower_hex_48)
  show "parseInt16 (hexAligner v (int k)) = v"
    using digits_16 [of "nat v"] assms(1) by (simp add: hex parseInt16_zeros)
qed

subsection \<open>The pattern of \<open>parse\<close>\<close>

lemma hexdigits_append:
  "length g = n \<Longrightarrow> list_all is_hex g \<Longrightarrow> hexdigits n (g @ r) = Some (g, r)"
  by (simp add: hexdigits_def)

lemma hexdigits_SomeD:
  "hexdigits n s = Some (g, r) \<Longrightarrow> s = g @ r \<and> length g = n \<and> list_all is_hex g"
  by (auto simp: hexdigits_def split: if_splits)

lemma hyphen_Cons: "hyphen (45 # r) = Some r"
  by (simp add: hyphen_def)

lemma hyphen_SomeD: "hyphen s = Some r \<Longrightarrow> s = 45 # r"
  by (auto simp: hyphen_def split: list.splits if_splits)

lemma body_exec_append:
  assumes "length g1 = 8" "length g2 = 4" "length g3 = 4" "length g4 = 2" "length g5 = 2"
    "length g6 = 12"
    and "list_all is_hex g1" "list_all is_hex g2" "list_all is_hex g3" "list_all is_hex g4"
    "list_all is_hex g5" "list_all is_hex g6"
  shows "body_exec (g1 @ 45 # g2 @ 45 # g3 @ 45 # g4 @ g5 @ 45 # g6 @ rest) =
    map_option (\<lambda>r8. (g1, g2, g3, g4, g5, g6, r8)) (tail_exec rest)"
  using assms
  by (cases "tail_exec rest") (simp_all add: body_exec_def hexdigits_append hyphen_Cons)

lemma body_exec_SomeD:
  assumes "body_exec s = Some (g1, g2, g3, g4, g5, g6, r8)"
  shows "\<exists>rest. s = g1 @ 45 # g2 @ 45 # g3 @ 45 # g4 @ g5 @ 45 # g6 @ rest \<and>
     length g1 = 8 \<and> length g2 = 4 \<and> length g3 = 4 \<and> length g4 = 2 \<and> length g5 = 2 \<and>
     length g6 = 12 \<and> list_all is_hex g1 \<and> list_all is_hex g2 \<and> list_all is_hex g3 \<and>
     list_all is_hex g4 \<and> list_all is_hex g5 \<and> list_all is_hex g6 \<and> tail_exec rest = Some r8"
  using assms unfolding body_exec_def
  by (auto split: Option.bind_splits dest!: hexdigits_SomeD hyphen_SomeD)


lemma tail_exec_spaces: "list_all is_space ws \<Longrightarrow> tail_exec ws = Some None"
  by (cases ws) (auto simp: tail_exec_def is_space_def)

lemma tail_exec_brace: "list_all is_space ws \<Longrightarrow> tail_exec (125 # ws) = Some (Some [125])"
  by (simp add: tail_exec_def js_literals)

lemma tail_exec_SomeD:
  assumes "tail_exec rest = Some r8"
  shows "\<exists>ws. list_all is_space ws \<and>
    ((r8 = None \<and> rest = ws) \<or> (r8 = Some [125] \<and> rest = 125 # ws))"
proof (cases "rest \<noteq> [] \<and> hd rest = 125 \<and> list_all is_space (tl rest)")
  case True
  then have "r8 = Some [125]" using assms by (simp add: tail_exec_def js_literals)
  moreover have "rest = 125 # tl rest" using True by (cases rest) simp_all
  ultimately show ?thesis using True by blast
next
  case False
  then have "list_all is_space rest \<and> r8 = None"
    using assms by (auto simp: tail_exec_def split: if_splits)
  then show ?thesis by blast
qed

lemma dropWhile_spaces:
  assumes "list_all is_space ws" "x = [] \<or> \<not> is_space (hd x)"
  shows "dropWhile is_space (ws @ x) = x"
proof -
  have "dropWhile is_space (ws @ x) = dropWhile is_space x"
    using assms(1) by (intro dropWhile_append2) (simp add: list_all_iff)
  also have "\<dots> = x" using assms(2) by (cases x) auto
  finally show ?thesis .
qed

lemma hex_not_space: "is_hex c \<Longrightarrow> \<not> is_space c"
  by (auto simp: is_hex_def is_space_def)

lemma toLowerCase_hd:
  "toLowerCase s = 117 # t \<Longrightarrow> s \<noteq> [] \<and> (hd s = 117 \<or> hd s = 85)"
  by (cases s) (auto simp: toLowerCase_def split: if_splits)

lemma urn_prefix_hd:
  assumes "toLowerCase (take 9 s) = js ''urn:uuid:''"
  shows "s \<noteq> [] \<and> (hd s = 117 \<or> hd s = 85)"
proof -
  have "take 9 s \<noteq> [] \<and> (hd (take 9 s) = 117 \<or> hd (take 9 s) = 85)"
    using assms toLowerCase_hd [of "take 9 s"] by (simp add: js_literals)
  then show ?thesis by (cases s) auto
qed

lemma body_exec_not_hex:
  assumes "s = [] \<or> \<not> is_hex (hd s)"
  shows "body_exec s = None"
proof -
  have "hexdigits 8 s = None"
    using assms by (cases s) (auto simp: hexdigits_def)
  then show ?thesis by (simp add: body_exec_def)
qed

lemma pattern_exec_cases:
  assumes "dropWhile is_space strId = s"
  shows "toLowerCase (take 9 s) = js ''urn:uuid:'' \<Longrightarrow> body_exec (drop 9 s) = Some b
      \<Longrightarrow> pattern_exec strId = Some (Some (take 9 s), b)"
    and "toLowerCase (take 9 s) \<noteq> js ''urn:uuid:'' \<or> body_exec (drop 9 s) = None
      \<Longrightarrow> s \<noteq> [] \<Longrightarrow> hd s = 123 \<Longrightarrow> body_exec (tl s) = Some b
      \<Longrightarrow> pattern_exec strId = Some (Some [123], b)"
    and "toLowerCase (take 9 s) \<noteq> js ''urn:uuid:'' \<or> body_exec (drop 9 s) = None
      \<Longrightarrow> s = [] \<or> hd s \<noteq> 123 \<or> body_exec (tl s) = None
      \<Longrightarrow> pattern_exec strId = map_option (Pair None) (body_exec s)"
  unfolding pattern_exec_def Let_def assms
  by (auto simp: js_literals(2))

lemma pattern_exec_SomeD:
  assumes "pattern_exec strId = Some (r1, b)" and "dropWhile is_space strId = s"
  shows "(r1 = Some (take 9 s) \<and> toLowerCase (take 9 s) = js ''urn:uuid:''
            \<and> body_exec (drop 9 s) = Some b)
       \<or> (r1 = Some [123] \<and> s \<noteq> [] \<and> hd s = 123 \<and> body_exec (tl s) = Some b)
       \<or> (r1 = None \<and> body_exec s = Some b)"
  using assms(1) unfolding pattern_exec_def Let_def assms(2)
  by (auto simp: js_literals(2) split: option.splits if_splits)

text \<open>The three ways the pattern can start, after the leading white space.\<close>

lemma pattern_exec_plain:
  assumes "list_all is_space ws" "s \<noteq> []" "is_hex (hd s)"
  shows "pattern_exec (ws @ s) = map_option (Pair None) (body_exec s)"
proof -
  have d: "dropWhile is_space (ws @ s) = s"
    using assms hex_not_space [of "hd s"] by (intro dropWhile_spaces) simp_all
  have u: "toLowerCase (take 9 s) \<noteq> js ''urn:uuid:''"
    using urn_prefix_hd [of s] assms(3) by (auto simp: is_hex_def)
  have b: "hd s \<noteq> 123" using assms(3) by (auto simp: is_hex_def)
  show ?thesis using u b by (intro pattern_exec_cases(3) [OF d]) simp_all
qed

lemma pattern_exec_brace:
  assumes "list_all is_space ws"
  shows "pattern_exec (ws @ 123 # s) = map_option (Pair (Some [123])) (body_exec s)"
proof -
  define t where "t = 123 # s"
  have t: "t \<noteq> []" "hd t = 123" "tl t = s" by (simp_all add: t_def)
  have d: "dropWhile is_space (ws @ t) = t"
    using assms t by (intro dropWhile_spaces) (simp_all add: is_space_def)
  have u: "toLowerCase (take 9 t) \<noteq> js ''urn:uuid:''"
    using urn_prefix_hd [of t] t by auto
  have n: "body_exec t = None" using t by (intro body_exec_not_hex) (simp add: is_hex_def)
  have "pattern_exec (ws @ t) = map_option (Pair (Some [123])) (body_exec s)"
  proof (cases "body_exec s")
    case None
    then show ?thesis
      using pattern_exec_cases(3) [OF d, of ] u t n by simp
  next
    case (Some b)
    then show ?thesis
      using pattern_exec_cases(2) [OF d, of b] u t by simp
  qed
  then show ?thesis by (simp add: t_def)
qed

lemma pattern_exec_urn:
  assumes "list_all is_space ws" "toLowerCase p = js ''urn:uuid:''"
  shows "pattern_exec (ws @ p @ s) = map_option (Pair (Some p)) (body_exec s)"
proof -
  define t where "t = p @ s"
  have len: "length p = 9"
    using arg_cong [OF assms(2), of length] by (simp add: toLowerCase_def js_literals)
  have tk: "take 9 t = p" "drop 9 t = s" using len by (simp_all add: t_def)
  have h: "t \<noteq> [] \<and> (hd t = 117 \<or> hd t = 85)"
    using urn_prefix_hd [of t] assms(2) tk by simp
  have d: "dropWhile is_space (ws @ t) = t"
    using assms(1) h by (intro dropWhile_spaces) (auto simp: is_space_def)
  have b: "hd t \<noteq> 123" using h by auto
  have n: "body_exec t = None"
    using h by (intro body_exec_not_hex) (auto simp: is_hex_def)
  have "pattern_exec (ws @ t) = map_option (Pair (Some p)) (body_exec s)"
  proof (cases "body_exec s")
    case None
    then show ?thesis
      using pattern_exec_cases(3) [OF d] tk b n by simp
  next
    case (Some b)
    then show ?thesis
      using pattern_exec_cases(1) [OF d, of b] tk assms(2) by simp
  qed
  then show ?thesis by (simp add: t_def)
qed

lemma fmt_x:
  "list_all2 (format_unit lower) g (replicate n CHR ''x'') \<longleftrightarrow> length g = n \<and> list_all (hexp lower) g"
  by (auto simp: list_all2_conv_all_nth list_all_length format_unit_def hexp_def)

lemma fmt_hyphen: "list_all2 (format_unit lower) s (CHR ''-'' # p) \<longleftrightarrow>
    (\<exists>t. s = 45 # t \<and> list_all2 (format_unit lower) t p)"
  by (cases s) (auto simp: format_unit_def)

lemma fmt_append: "list_all2 F s (p @ q) \<longleftrightarrow> (\<exists>a b. s = a @ b \<and> list_all2 F a p \<and> list_all2 F b q)"
  by (auto simp: list_all2_append2 dest: list_all2_lengthD)

lemma pattern_eq:
  "''xxxxxxxx-xxxx-xxxx-xxxx-xxxxxxxxxxxx'' =
     replicate 8 CHR ''x'' @ CHR ''-'' # replicate 4 CHR ''x'' @ CHR ''-'' # replicate 4 CHR ''x'' @
     CHR ''-'' # replicate 2 CHR ''x'' @ replicate 2 CHR ''x'' @ CHR ''-'' # replicate 12 CHR ''x''"
  by (simp add: eval_nat_numeral)

lemma fmt_group:
  "list_all2 (format_unit lower) s (replicate n CHR ''x'' @ CHR ''-'' # p) \<longleftrightarrow>
    (\<exists>g t. s = g @ 45 # t \<and> length g = n \<and> list_all (hexp lower) g \<and>
       list_all2 (format_unit lower) t p)"
  by (auto simp: fmt_append fmt_hyphen fmt_x)

lemma fmt_group2:
  "list_all2 (format_unit lower) s (replicate n CHR ''x'' @ p) \<longleftrightarrow>
    (\<exists>g t. s = g @ t \<and> length g = n \<and> list_all (hexp lower) g \<and>
       list_all2 (format_unit lower) t p)"
  by (auto simp: fmt_append fmt_x)

lemma canonical_textD:
  assumes "canonical_text lower h"
  obtains g1 g2 g3 g4 g5 g6 where "h = g1 @ 45 # g2 @ 45 # g3 @ 45 # g4 @ g5 @ 45 # g6"
    "length g1 = 8" "length g2 = 4" "length g3 = 4" "length g4 = 2" "length g5 = 2"
    "length g6 = 12" "list_all (hexp lower) g1" "list_all (hexp lower) g2"
    "list_all (hexp lower) g3" "list_all (hexp lower) g4" "list_all (hexp lower) g5"
    "list_all (hexp lower) g6"
proof -
  let ?F = "format_unit lower"
  have "list_all2 ?F h (replicate 8 CHR ''x'' @ CHR ''-'' # replicate 4 CHR ''x'' @ CHR ''-'' #
     replicate 4 CHR ''x'' @ CHR ''-'' # replicate 2 CHR ''x'' @ replicate 2 CHR ''x'' @
     CHR ''-'' # replicate 12 CHR ''x'')"
    using assms by (simp only: canonical_text_def pattern_eq)
  from fmt_group [THEN iffD1, OF this]
  obtain g1 t1 where 1: "h = g1 @ 45 # t1" "length g1 = 8" "list_all (hexp lower) g1"
    and r1: "list_all2 ?F t1 (replicate 4 CHR ''x'' @ CHR ''-'' #
     replicate 4 CHR ''x'' @ CHR ''-'' # replicate 2 CHR ''x'' @ replicate 2 CHR ''x'' @
     CHR ''-'' # replicate 12 CHR ''x'')"
    by (elim exE conjE)
  from fmt_group [THEN iffD1, OF r1]
  obtain g2 t2 where 2: "t1 = g2 @ 45 # t2" "length g2 = 4" "list_all (hexp lower) g2"
    and r2: "list_all2 ?F t2 (replicate 4 CHR ''x'' @ CHR ''-'' # replicate 2 CHR ''x'' @
     replicate 2 CHR ''x'' @ CHR ''-'' # replicate 12 CHR ''x'')"
    by (elim exE conjE)
  from fmt_group [THEN iffD1, OF r2]
  obtain g3 t3 where 3: "t2 = g3 @ 45 # t3" "length g3 = 4" "list_all (hexp lower) g3"
    and r3: "list_all2 ?F t3 (replicate 2 CHR ''x'' @
     replicate 2 CHR ''x'' @ CHR ''-'' # replicate 12 CHR ''x'')"
    by (elim exE conjE)
  from fmt_group2 [THEN iffD1, OF r3]
  obtain g4 t4 where 4: "t3 = g4 @ t4" "length g4 = 2" "list_all (hexp lower) g4"
    and r4: "list_all2 ?F t4 (replicate 2 CHR ''x'' @ CHR ''-'' # replicate 12 CHR ''x'')"
    by (elim exE conjE)
  from fmt_group [THEN iffD1, OF r4]
  obtain g5 g6 where 5: "t4 = g5 @ 45 # g6" "length g5 = 2" "list_all (hexp lower) g5"
    and r5: "list_all2 ?F g6 (replicate 12 CHR ''x'')"
    by (elim exE conjE)
  from r5 have 6: "length g6 = 12" "list_all (hexp lower) g6" by (simp_all only: fmt_x)
  have eq: "h = g1 @ 45 # g2 @ 45 # g3 @ 45 # g4 @ g5 @ 45 # g6"
    by (simp only: 1 2 3 4 5 append_assoc append_Cons)
  show thesis
    by (rule that [OF eq 1(2) 2(2) 3(2) 4(2) 5(2) 6(1) 1(3) 2(3) 3(3) 4(3) 5(3) 6(2)])
qed

lemma canonical_textI:
  assumes "length g1 = 8" "length g2 = 4" "length g3 = 4" "length g4 = 2" "length g5 = 2"
    "length g6 = 12" "list_all (hexp lower) g1" "list_all (hexp lower) g2"
    "list_all (hexp lower) g3" "list_all (hexp lower) g4" "list_all (hexp lower) g5"
    "list_all (hexp lower) g6"
  shows "canonical_text lower (g1 @ 45 # g2 @ 45 # g3 @ 45 # g4 @ g5 @ 45 # g6)"
proof -
  let ?F = "format_unit lower"
  have 6: "list_all2 ?F g6 (replicate 12 CHR ''x'')" using assms(6,12) by (simp only: fmt_x)
  have 5: "list_all2 ?F (g5 @ 45 # g6) (replicate 2 CHR ''x'' @ CHR ''-'' # replicate 12 CHR ''x'')"
    by (rule fmt_group [THEN iffD2]) (rule exI [of _ g5], rule exI [of _ g6], intro conjI refl assms(5,11) 6)
  have 4: "list_all2 ?F (g4 @ g5 @ 45 # g6)
     (replicate 2 CHR ''x'' @ replicate 2 CHR ''x'' @ CHR ''-'' # replicate 12 CHR ''x'')"
    by (rule fmt_group2 [THEN iffD2]) (rule exI [of _ g4], rule exI [of _ "g5 @ 45 # g6"], intro conjI refl assms(4,10) 5)
  have 3: "list_all2 ?F (g3 @ 45 # g4 @ g5 @ 45 # g6)
     (replicate 4 CHR ''x'' @ CHR ''-'' # replicate 2 CHR ''x'' @ replicate 2 CHR ''x'' @
      CHR ''-'' # replicate 12 CHR ''x'')"
    by (rule fmt_group [THEN iffD2]) (rule exI [of _ g3], rule exI [of _ "g4 @ g5 @ 45 # g6"], intro conjI refl assms(3,9) 4)
  have 2: "list_all2 ?F (g2 @ 45 # g3 @ 45 # g4 @ g5 @ 45 # g6)
     (replicate 4 CHR ''x'' @ CHR ''-'' # replicate 4 CHR ''x'' @ CHR ''-'' #
      replicate 2 CHR ''x'' @ replicate 2 CHR ''x'' @ CHR ''-'' # replicate 12 CHR ''x'')"
    by (rule fmt_group [THEN iffD2]) (rule exI [of _ g2], rule exI [of _ "g3 @ 45 # g4 @ g5 @ 45 # g6"], intro conjI refl assms(2,8) 3)
  have "list_all2 ?F (g1 @ 45 # g2 @ 45 # g3 @ 45 # g4 @ g5 @ 45 # g6)
     (replicate 8 CHR ''x'' @ CHR ''-'' # replicate 4 CHR ''x'' @ CHR ''-'' #
      replicate 4 CHR ''x'' @ CHR ''-'' # replicate 2 CHR ''x'' @ replicate 2 CHR ''x'' @
      CHR ''-'' # replicate 12 CHR ''x'')"
    by (rule fmt_group [THEN iffD2]) (rule exI [of _ g1], rule exI [of _ "g2 @ 45 # g3 @ 45 # g4 @ g5 @ 45 # g6"], intro conjI refl assms(1,7) 2)
  then show ?thesis by (simp only: canonical_text_def pattern_eq)
qed

lemma hexString_init:
  "hexString (init a b c d e f) =
     hexAligner a 8 @ 45 # hexAligner b 4 @ 45 # hexAligner c 4 @ 45 # hexAligner d 2 @
     hexAligner e 2 @ 45 # hexAligner f 12"
  by (simp add: init_def Let_def upt_6 FIELD_SIZES_def js_literals)

lemma list_all_lower_hex: "list_all is_lower_hex g \<Longrightarrow> list_all is_hex g"
  by (simp add: list_all_iff is_lower_hex_is_hex)

lemma hexp_simps: "hexp True = is_lower_hex" "hexp False = is_hex"
  by (simp_all add: hexp_def fun_eq_iff)

lemma parse_Some:
  assumes "pattern_exec s = Some (r1, g1, g2, g3, g4, g5, g6, r8)"
    and "(r1 = None \<and> r8 = None) \<or> (r1 = Some [123] \<and> r8 = Some [125])
         \<or> (\<exists>p. r1 = Some p \<and> toLowerCase p = js ''urn:uuid:'' \<and> r8 = None)"
  shows "parse s = Some (init (parseInt16 g1) (parseInt16 g2) (parseInt16 g3)
                           (parseInt16 g4) (parseInt16 g5) (parseInt16 g6))"
  using assms by (auto simp: parse_def js_literals)

lemma urn_length:
  assumes "toLowerCase p = js ''urn:uuid:''"
  shows "length p = 9"
proof -
  have "length (toLowerCase p) = length p" by (simp add: toLowerCase_def)
  then show ?thesis using assms by (simp add: js_literals)
qed

lemma brace_not_urn: "toLowerCase [123] \<noteq> js ''urn:uuid:''"
  by (simp add: toLowerCase_def js_literals)

lemma parse_None:
  assumes "pattern_exec s = Some (r1, g1, g2, g3, g4, g5, g6, r8)"
    and "(r1 = Some [123] \<and> r8 = None) \<or> (r1 = None \<and> r8 = Some [125])
         \<or> (\<exists>p. r1 = Some p \<and> toLowerCase p = js ''urn:uuid:'' \<and> r8 = Some [125])"
  shows "parse s = None"
  using assms by (auto simp: parse_def js_literals toLowerCase_def)

lemma parse_SomeD:
  assumes "parse s \<noteq> None"
  obtains r1 g1 g2 g3 g4 g5 g6 r8 where "pattern_exec s = Some (r1, g1, g2, g3, g4, g5, g6, r8)"
    and "(r1 = None \<and> (r8 = None \<or> r8 = Some [])) \<or> (r1 = Some [] \<and> (r8 = None \<or> r8 = Some []))
         \<or> (r1 = Some [123] \<and> r8 = Some [125])
         \<or> (\<exists>p. r1 = Some p \<and> toLowerCase p = js ''urn:uuid:'' \<and> (r8 = None \<or> r8 = Some []))"
  using assms
  by (auto simp: parse_def js_literals Let_def split: option.splits prod.splits if_splits)

lemma body_exec_canonical:
  assumes "length g1 = 8" "length g2 = 4" "length g3 = 4" "length g4 = 2" "length g5 = 2"
    "length g6 = 12"
    and "list_all is_hex g1" "list_all is_hex g2" "list_all is_hex g3" "list_all is_hex g4"
    "list_all is_hex g5" "list_all is_hex g6"
    and "list_all is_space ws"
  shows "body_exec ((g1 @ 45 # g2 @ 45 # g3 @ 45 # g4 @ g5 @ 45 # g6) @ ws)
           = Some (g1, g2, g3, g4, g5, g6, None)"
    and "body_exec ((g1 @ 45 # g2 @ 45 # g3 @ 45 # g4 @ g5 @ 45 # g6) @ 125 # ws)
           = Some (g1, g2, g3, g4, g5, g6, Some [125])"
  using body_exec_append [OF assms(1-12), of ws] body_exec_append [OF assms(1-12), of "125 # ws"]
    assms(13)
  by (simp_all add: tail_exec_spaces tail_exec_brace)

lemma canonical_hd:
  assumes "length g1 = 8" "list_all is_hex g1"
  shows "(g1 @ t) @ u \<noteq> []" "is_hex (hd ((g1 @ t) @ u))"
  using assms by (cases g1; simp)+

text \<open>What \<open>parse\<close> does on each shape of input around a canonical text.\<close>

lemma parse_shapes:
  assumes ws: "list_all is_space ws1" "list_all is_space ws2"
    and h: "canonical_text False h"
    and p: "toLowerCase p = js ''urn:uuid:''"
  shows "parse (ws1 @ h @ ws2) \<noteq> None"
    and "parse (ws1 @ 123 # h @ 125 # ws2) \<noteq> None"
    and "parse (ws1 @ p @ h @ ws2) \<noteq> None"
    and "parse (ws1 @ 123 # h @ ws2) = None"
    and "parse (ws1 @ h @ 125 # ws2) = None"
    and "parse (ws1 @ p @ h @ 125 # ws2) = None"
proof -
  from h obtain g1 g2 g3 g4 g5 g6 where
    eq: "h = g1 @ 45 # g2 @ 45 # g3 @ 45 # g4 @ g5 @ 45 # g6"
    and len: "length g1 = 8" "length g2 = 4" "length g3 = 4" "length g4 = 2" "length g5 = 2"
      "length g6 = 12"
    and hex0: "list_all (hexp False) g1" "list_all (hexp False) g2" "list_all (hexp False) g3"
      "list_all (hexp False) g4" "list_all (hexp False) g5" "list_all (hexp False) g6"
    by (rule canonical_textD)
  note hex = hex0 [unfolded hexp_simps]
  have body0: "body_exec ((g1 @ 45 # g2 @ 45 # g3 @ 45 # g4 @ g5 @ 45 # g6) @ ws2)
           = Some (g1, g2, g3, g4, g5, g6, None)"
    "body_exec ((g1 @ 45 # g2 @ 45 # g3 @ 45 # g4 @ g5 @ 45 # g6) @ 125 # ws2)
           = Some (g1, g2, g3, g4, g5, g6, Some [125])"
    by (rule body_exec_canonical [OF len hex ws(2)])+
  have body: "body_exec (h @ ws2) = Some (g1, g2, g3, g4, g5, g6, None)"
    "body_exec (h @ 125 # ws2) = Some (g1, g2, g3, g4, g5, g6, Some [125])"
    unfolding eq by (rule body0)+
  have hd0: "(g1 @ 45 # g2 @ 45 # g3 @ 45 # g4 @ g5 @ 45 # g6) @ ws2 \<noteq> []"
    "is_hex (hd ((g1 @ 45 # g2 @ 45 # g3 @ 45 # g4 @ g5 @ 45 # g6) @ ws2))"
    "(g1 @ 45 # g2 @ 45 # g3 @ 45 # g4 @ g5 @ 45 # g6) @ 125 # ws2 \<noteq> []"
    "is_hex (hd ((g1 @ 45 # g2 @ 45 # g3 @ 45 # g4 @ g5 @ 45 # g6) @ 125 # ws2))"
    by (rule canonical_hd [OF len(1) hex(1)])+
  have hd: "h @ ws2 \<noteq> []" "is_hex (hd (h @ ws2))" "h @ 125 # ws2 \<noteq> []"
    "is_hex (hd (h @ 125 # ws2))"
    unfolding eq by (rule hd0)+
  have e1: "pattern_exec (ws1 @ h @ ws2) = Some (None, g1, g2, g3, g4, g5, g6, None)"
    using pattern_exec_plain [OF ws(1) hd(1,2)] body(1) by simp
  have e2: "pattern_exec (ws1 @ 123 # h @ 125 # ws2)
      = Some (Some [123], g1, g2, g3, g4, g5, g6, Some [125])"
    using pattern_exec_brace [OF ws(1), of "h @ 125 # ws2"] body(2) by simp
  have e3: "pattern_exec (ws1 @ p @ h @ ws2) = Some (Some p, g1, g2, g3, g4, g5, g6, None)"
    using pattern_exec_urn [OF ws(1) p, of "h @ ws2"] body(1) by simp
  have e4: "pattern_exec (ws1 @ 123 # h @ ws2) = Some (Some [123], g1, g2, g3, g4, g5, g6, None)"
    using pattern_exec_brace [OF ws(1), of "h @ ws2"] body(1) by simp
  have e5: "pattern_exec (ws1 @ h @ 125 # ws2) = Some (None, g1, g2, g3, g4, g5, g6, Some [125])"
    using pattern_exec_plain [OF ws(1) hd(3,4)] body(2) by simp
  have e6: "pattern_exec (ws1 @ p @ h @ 125 # ws2)
      = Some (Some p, g1, g2, g3, g4, g5, g6, Some [125])"
    using pattern_exec_urn [OF ws(1) p, of "h @ 125 # ws2"] body(2) by simp
  show "parse (ws1 @ h @ ws2) \<noteq> None"
    using parse_Some [OF e1] by simp
  show "parse (ws1 @ 123 # h @ 125 # ws2) \<noteq> None"
    using parse_Some [OF e2] by simp
  show "parse (ws1 @ p @ h @ ws2) \<noteq> None"
    using parse_Some [OF e3] p by simp
  show "parse (ws1 @ 123 # h @ ws2) = None"
    using parse_None [OF e4] by simp
  show "parse (ws1 @ h @ 125 # ws2) = None"
    using parse_None [OF e5] by simp
  show "parse (ws1 @ p @ h @ 125 # ws2) = None"
    using parse_None [OF e6] p by simp
qed

lemma example_canonical: "canonical_text False example_text"
  by (simp add: example_text_def canonical_text_def js_def format_unit_def is_hex_def)

lemma hexAligner_eval:
  "len < 4294967296 \<Longrightarrow> 0 \<le> num \<Longrightarrow> hexAligner num len =
    replicate (nat (len - int (length (digits 16 (nat num))))) 48 @ digits 16 (nat num)"
  by (simp add: hexAligner_def getIntAligner_eq toString_def)

lemma example_hexString:
  "hexString (init 19088743 35243 19951 129 35 76310993685999) = example_text"
  by (simp add: hexString_init hexAligner_eval digits_step digit_unit_def example_text_def js_def)

text \<open>
  C2. For six field values within their declared widths (32, 16, 16, 8, 8 and 48 bits),
  parsing the \<open>hexString\<close> of the object built from them gives back an object with
  exactly these six integer fields (the same object); the \<open>hexString\<close> is then the
  canonical lowercase text.
\<close>

theorem parse_hexString_roundtrip:
  assumes "0 \<le> a" "a < 2 ^ 32" "0 \<le> b" "b < 2 ^ 16" "0 \<le> c" "c < 2 ^ 16"
    "0 \<le> d" "d < 2 ^ 8" "0 \<le> e" "e < 2 ^ 8" "0 \<le> f" "f < 2 ^ 48"
  shows "parse (hexString (init a b c d e f)) = Some (init a b c d e f) \<and>
         intFields (init a b c d e f) = [a, b, c, d, e, f] \<and>
         canonical_text True (hexString (init a b c d e f))"
proof -
  note A = hexAligner_fit [of a 8] and B = hexAligner_fit [of b 4] and C = hexAligner_fit [of c 4]
    and D = hexAligner_fit [of d 2] and E = hexAligner_fit [of e 2] and F = hexAligner_fit [of f 12]
  define g1 where "g1 = hexAligner a 8"
  define g2 where "g2 = hexAligner b 4"
  define g3 where "g3 = hexAligner c 4"
  define g4 where "g4 = hexAligner d 2"
  define g5 where "g5 = hexAligner e 2"
  define g6 where "g6 = hexAligner f 12"
  have len: "length g1 = 8" "length g2 = 4" "length g3 = 4" "length g4 = 2" "length g5 = 2"
    "length g6 = 12"
    using assms A(1) B(1) C(1) D(1) E(1) F(1)
    by (simp_all add: g1_def g2_def g3_def g4_def g5_def g6_def)
  have low: "list_all is_lower_hex g1" "list_all is_lower_hex g2" "list_all is_lower_hex g3"
    "list_all is_lower_hex g4" "list_all is_lower_hex g5" "list_all is_lower_hex g6"
    using assms A(2) B(2) C(2) D(2) E(2) F(2)
    by (simp_all add: g1_def g2_def g3_def g4_def g5_def g6_def)
  have val: "parseInt16 g1 = a" "parseInt16 g2 = b" "parseInt16 g3 = c" "parseInt16 g4 = d"
    "parseInt16 g5 = e" "parseInt16 g6 = f"
    using assms A(3) B(3) C(3) D(3) E(3) F(3)
    by (simp_all add: g1_def g2_def g3_def g4_def g5_def g6_def)
  note hex = low [THEN list_all_lower_hex]
  define s where "s = g1 @ 45 # g2 @ 45 # g3 @ 45 # g4 @ g5 @ 45 # g6"
  have str: "hexString (init a b c d e f) = s"
    by (simp add: hexString_init s_def g1_def g2_def g3_def g4_def g5_def g6_def)
  have "g1 \<noteq> []" using len(1) by auto
  then have hd: "s \<noteq> []" "is_hex (hd s)"
    using hex(1) by (cases g1; simp add: s_def)+
  have "body_exec (g1 @ 45 # g2 @ 45 # g3 @ 45 # g4 @ g5 @ 45 # g6 @ []) =
      map_option (\<lambda>r8. (g1, g2, g3, g4, g5, g6, r8)) (tail_exec [])"
    by (rule body_exec_append [OF len hex])
  then have body: "body_exec s = Some (g1, g2, g3, g4, g5, g6, None)"
    by (simp add: s_def tail_exec_spaces)
  have "pattern_exec ([] @ s) = map_option (Pair None) (body_exec s)"
    by (rule pattern_exec_plain) (simp_all add: hd)
  then have "pattern_exec s = Some (None, g1, g2, g3, g4, g5, g6, None)"
    by (simp add: body)
  then have "parse s = Some (init a b c d e f)"
    using parse_Some [of s None g1 g2 g3 g4 g5 g6 None] by (simp add: val)
  moreover have "canonical_text True s"
    unfolding s_def by (rule canonical_textI) (simp_all add: len low hexp_simps)
  ultimately show ?thesis by (simp add: str intFields_init)
qed

theorem parse_hexString_roundtrip_witness:
  "parse (hexString (init 19088743 35243 19951 129 35 76310993685999))
     = Some (init 19088743 35243 19951 129 35 76310993685999) \<and>
   intFields (init 19088743 35243 19951 129 35 76310993685999)
     = [19088743, 35243, 19951, 129, 35, 76310993685999] \<and>
   hexString (init 19088743 35243 19951 129 35 76310993685999)
     = js ''01234567-89ab-4def-8123-456789abcdef''"
  using parse_hexString_roundtrip [of 19088743 35243 19951 129 35 76310993685999]
    example_hexString
  by (simp add: example_text_def)

text \<open>
  C6. \<open>parse\<close> is total: it returns \<open>null\<close> (\<open>None\<close>) or an object, and raises
  nothing. It returns an object exactly when the input is a canonical text (hexadecimal
  digits of either case) between optional white space, either bare, or wrapped in \<open>{\<close>
  and \<open>}\<close>, or after \<open>urn:uuid:\<close> (of either case) with no closing brace. In
  particular \<open>{\<close> without \<open>}\<close>, \<open>}\<close> without \<open>{\<close>, and \<open>urn:uuid:\<close> with \<open>}\<close>
  give \<open>null\<close> although the hexadecimal groups match.
\<close>

theorem parse_grammar:
  "(parse s \<noteq> None \<longleftrightarrow>
      (\<exists>ws1 pre h suf ws2. s = ws1 @ pre @ h @ suf @ ws2 \<and>
         list_all is_space ws1 \<and> list_all is_space ws2 \<and> canonical_text False h \<and>
         ((pre = [] \<and> suf = []) \<or> (pre = js ''{'' \<and> suf = js ''}'')
          \<or> (toLowerCase pre = js ''urn:uuid:'' \<and> suf = [])))) \<and>
   (list_all is_space w1 \<and> list_all is_space w2 \<and> canonical_text False t \<and>
    toLowerCase p = js ''urn:uuid:'' \<longrightarrow>
      parse (w1 @ js ''{'' @ t @ w2) = None \<and> parse (w1 @ t @ js ''}'' @ w2) = None \<and>
      parse (w1 @ p @ t @ js ''}'' @ w2) = None)"
proof (intro conjI iffI impI)
  assume "parse s \<noteq> None"
  then obtain r1 g1 g2 g3 g4 g5 g6 r8
    where pe: "pattern_exec s = Some (r1, g1, g2, g3, g4, g5, g6, r8)"
      and pair: "(r1 = None \<and> (r8 = None \<or> r8 = Some []))
         \<or> (r1 = Some [] \<and> (r8 = None \<or> r8 = Some []))
         \<or> (r1 = Some [123] \<and> r8 = Some [125])
         \<or> (\<exists>p. r1 = Some p \<and> toLowerCase p = js ''urn:uuid:'' \<and> (r8 = None \<or> r8 = Some []))"
    by (rule parse_SomeD)
  define ws1 where "ws1 = takeWhile is_space s"
  define s' where "s' = dropWhile is_space s"
  have s: "s = ws1 @ s'" by (simp add: ws1_def s'_def)
  have ws1: "list_all is_space ws1"
    unfolding ws1_def list_all_iff by (auto dest: set_takeWhileD)
  define h where "h = g1 @ 45 # g2 @ 45 # g3 @ 45 # g4 @ g5 @ 45 # g6"
  have shape: "\<exists>pre x. s' = pre @ x \<and> body_exec x = Some (g1, g2, g3, g4, g5, g6, r8) \<and>
      ((r1 = None \<and> pre = []) \<or> (r1 = Some [123] \<and> pre = [123])
       \<or> (r1 = Some pre \<and> toLowerCase pre = js ''urn:uuid:''))"
  proof -
    consider (urn) "r1 = Some (take 9 s')" "toLowerCase (take 9 s') = js ''urn:uuid:''"
        "body_exec (drop 9 s') = Some (g1, g2, g3, g4, g5, g6, r8)"
      | (brace) "r1 = Some [123]" "s' \<noteq> []" "hd s' = 123"
        "body_exec (tl s') = Some (g1, g2, g3, g4, g5, g6, r8)"
      | (plain) "r1 = None" "body_exec s' = Some (g1, g2, g3, g4, g5, g6, r8)"
      using pattern_exec_SomeD [OF pe s'_def [symmetric]] by blast
    then show ?thesis
    proof cases
      case urn
      have "s' = take 9 s' @ drop 9 s'" by simp
      then show ?thesis using urn by blast
    next
      case brace
      then have "s' = [123] @ tl s'" by (cases s') simp_all
      then show ?thesis using brace by blast
    next
      case plain
      have "s' = [] @ s'" by simp
      then show ?thesis using plain by blast
    qed
  qed
  then obtain pre x where x: "s' = pre @ x" "body_exec x = Some (g1, g2, g3, g4, g5, g6, r8)"
    and pre: "(r1 = None \<and> pre = []) \<or> (r1 = Some [123] \<and> pre = [123])
       \<or> (r1 = Some pre \<and> toLowerCase pre = js ''urn:uuid:'')"
    by blast
  from body_exec_SomeD [OF x(2)] obtain rest where
    rest: "x = h @ rest" "tail_exec rest = Some r8"
    and len: "length g1 = 8" "length g2 = 4" "length g3 = 4" "length g4 = 2" "length g5 = 2"
      "length g6 = 12"
    and hex: "list_all is_hex g1" "list_all is_hex g2" "list_all is_hex g3" "list_all is_hex g4"
      "list_all is_hex g5" "list_all is_hex g6"
    unfolding h_def by auto
  have can: "canonical_text False h"
    unfolding h_def by (rule canonical_textI) (simp_all add: len hex hexp_simps)
  from tail_exec_SomeD [OF rest(2)] obtain ws2 where ws2: "list_all is_space ws2"
    and suf: "(r8 = None \<and> rest = ws2) \<or> (r8 = Some [125] \<and> rest = 125 # ws2)"
    by blast
  have "\<exists>suf. rest = suf @ ws2 \<and> ((pre = [] \<and> suf = []) \<or> (pre = js ''{'' \<and> suf = js ''}'')
          \<or> (toLowerCase pre = js ''urn:uuid:'' \<and> suf = []))"
    using pair pre suf urn_length [of pre]
    by (auto simp: js_literals toLowerCase_def)
  then obtain suf where "rest = suf @ ws2"
    "(pre = [] \<and> suf = []) \<or> (pre = js ''{'' \<and> suf = js ''}'')
          \<or> (toLowerCase pre = js ''urn:uuid:'' \<and> suf = [])"
    by blast
  moreover have "s = ws1 @ pre @ h @ rest" by (simp add: s x rest)
  ultimately show "\<exists>ws1 pre h suf ws2. s = ws1 @ pre @ h @ suf @ ws2 \<and>
         list_all is_space ws1 \<and> list_all is_space ws2 \<and> canonical_text False h \<and>
         ((pre = [] \<and> suf = []) \<or> (pre = js ''{'' \<and> suf = js ''}'')
          \<or> (toLowerCase pre = js ''urn:uuid:'' \<and> suf = []))"
    using ws1 ws2 can by blast
next
  assume "\<exists>ws1 pre h suf ws2. s = ws1 @ pre @ h @ suf @ ws2 \<and>
         list_all is_space ws1 \<and> list_all is_space ws2 \<and> canonical_text False h \<and>
         ((pre = [] \<and> suf = []) \<or> (pre = js ''{'' \<and> suf = js ''}'')
          \<or> (toLowerCase pre = js ''urn:uuid:'' \<and> suf = []))"
  then obtain ws1 pre h suf ws2 where s: "s = ws1 @ pre @ h @ suf @ ws2"
    and ws: "list_all is_space ws1" "list_all is_space ws2" and h: "canonical_text False h"
    and pair: "(pre = [] \<and> suf = []) \<or> (pre = js ''{'' \<and> suf = js ''}'')
          \<or> (toLowerCase pre = js ''urn:uuid:'' \<and> suf = [])"
    by blast
  from pair show "parse s \<noteq> None"
  proof (elim disjE conjE)
    assume "pre = []" "suf = []"
    then show ?thesis
      using parse_shapes(1) [OF ws h, of "js ''urn:uuid:''"] s
      by (simp add: toLowerCase_def js_literals)
  next
    assume "pre = js ''{''" "suf = js ''}''"
    then show ?thesis
      using parse_shapes(2) [OF ws h, of "js ''urn:uuid:''"] s
      by (simp add: toLowerCase_def js_literals)
  next
    assume "toLowerCase pre = js ''urn:uuid:''" "suf = []"
    then show ?thesis
      using parse_shapes(3) [OF ws h, of pre] s by simp
  qed
next
  assume a: "list_all is_space w1 \<and> list_all is_space w2 \<and> canonical_text False t \<and>
    toLowerCase p = js ''urn:uuid:''"
  then have ws: "list_all is_space w1" "list_all is_space w2" and t: "canonical_text False t"
    and p: "toLowerCase p = js ''urn:uuid:''" by simp_all
  show "parse (w1 @ js ''{'' @ t @ w2) = None"
    using parse_shapes(4) [OF ws t p] by (simp add: js_literals)
  show "parse (w1 @ t @ js ''}'' @ w2) = None"
    using parse_shapes(5) [OF ws t p] by (simp add: js_literals)
  show "parse (w1 @ p @ t @ js ''}'' @ w2) = None"
    using parse_shapes(6) [OF ws t p] by (simp add: js_literals)
qed

theorem parse_grammar_witness:
  "parse (js ''{'' @ example_text @ js ''}'') \<noteq> None \<and>
   parse (js '' urn:UUID:'' @ example_text @ js '' '') \<noteq> None \<and>
   parse (js ''{'' @ example_text) = None \<and>
   parse (example_text @ js ''}'') = None \<and>
   parse (js ''urn:uuid:'' @ example_text @ js ''}'') = None"
proof -
  have sp: "list_all is_space []" "list_all is_space (js '' '')"
    by (simp_all add: js_def is_space_def)
  have urn: "toLowerCase (js ''urn:uuid:'') = js ''urn:uuid:''"
    "toLowerCase (js ''urn:UUID:'') = js ''urn:uuid:''"
    by (simp_all add: toLowerCase_def js_def)
  have "\<exists>ws1 pre h suf ws2. js ''{'' @ example_text @ js ''}'' = ws1 @ pre @ h @ suf @ ws2 \<and>
         list_all is_space ws1 \<and> list_all is_space ws2 \<and> canonical_text False h \<and>
         ((pre = [] \<and> suf = []) \<or> (pre = js ''{'' \<and> suf = js ''}'')
          \<or> (toLowerCase pre = js ''urn:uuid:'' \<and> suf = []))"
    by (rule exI [of _ "[]"], rule exI [of _ "js ''{''"], rule exI [of _ example_text],
        rule exI [of _ "js ''}''"], rule exI [of _ "[]"]) (simp add: example_canonical)
  then have 1: "parse (js ''{'' @ example_text @ js ''}'') \<noteq> None"
    using parse_grammar [of "js ''{'' @ example_text @ js ''}''" "[]" "[]" example_text
        "js ''urn:uuid:''"]
    by blast
  have "\<exists>ws1 pre h suf ws2. js '' urn:UUID:'' @ example_text @ js '' '' = ws1 @ pre @ h @ suf @ ws2 \<and>
         list_all is_space ws1 \<and> list_all is_space ws2 \<and> canonical_text False h \<and>
         ((pre = [] \<and> suf = []) \<or> (pre = js ''{'' \<and> suf = js ''}'')
          \<or> (toLowerCase pre = js ''urn:uuid:'' \<and> suf = []))"
    by (rule exI [of _ "js '' ''"], rule exI [of _ "js ''urn:UUID:''"], rule exI [of _ example_text],
        rule exI [of _ "[]"], rule exI [of _ "js '' ''"])
       (simp add: example_canonical sp urn, simp add: js_def)
  then have 2: "parse (js '' urn:UUID:'' @ example_text @ js '' '') \<noteq> None"
    using parse_grammar [of "js '' urn:UUID:'' @ example_text @ js '' ''" "[]" "[]" example_text
        "js ''urn:uuid:''"]
    by blast
  have 3: "parse ([] @ js ''{'' @ example_text @ []) = None \<and>
      parse ([] @ example_text @ js ''}'' @ []) = None \<and>
      parse ([] @ js ''urn:uuid:'' @ example_text @ js ''}'' @ []) = None"
    using parse_grammar [of "[]" "[]" "[]" example_text "js ''urn:uuid:''"]
      sp(1) example_canonical urn(1)
    by blast
  show ?thesis using 1 2 3 by simp
qed

subsection \<open>The \<open>hexString\<close> of version 1\<close>

lemma time_fields_range:
  "0 \<le> tf_low (getTimeFieldValues t)" "tf_low (getTimeFieldValues t) < 2 ^ 32"
  "0 \<le> tf_mid (getTimeFieldValues t)" "tf_mid (getTimeFieldValues t) < 2 ^ 16"
proof -
  define a where "a = js_and (js_trunc (fl64 (of_int t - of_int Date_UTC_1582_10_15))) 0xFFFFFFF * 10000"
  have a: "0 \<le> a" unfolding a_def by (simp add: js_and_mask)
  have low: "tf_low (getTimeFieldValues t) = js_rem a 0x100000000"
    by (simp add: getTimeFieldValues_def Let_def a_def)
  have "js_rem a 0x100000000 = a mod 4294967296"
    using a by (cases "a = 0") (simp_all add: js_rem_def)
  then show "0 \<le> tf_low (getTimeFieldValues t)" "tf_low (getTimeFieldValues t) < 2 ^ 32"
    by (simp_all add: low)
  have "tf_mid (getTimeFieldValues t) \<le> 0xFFFF"
    unfolding getTimeFieldValues_def Let_def by (simp add: js_and_mask)
  then show "tf_mid (getTimeFieldValues t) < 2 ^ 16" by simp
  show "0 \<le> tf_mid (getTimeFieldValues t)"
    unfolding getTimeFieldValues_def Let_def by (simp add: js_and_mask)
qed

lemma thav_range:
  "js_or (js_and h 0xFFF) 0x1000 = (h AND 0xFFF) OR 0x1000"
  "0 \<le> (h AND 0xFFF) OR 0x1000" "(h AND 0xFFF) OR 0x1000 < 2 ^ 16"
proof -
  have a: "0 \<le> h AND 0xFFF" "h AND 0xFFF \<le> 0xFFF" by (simp_all add: AND_upper2)
  then show "js_or (js_and h 0xFFF) 0x1000 = (h AND 0xFFF) OR 0x1000"
    by (simp add: js_and_mask js_or_small)
  show "0 \<le> (h AND 0xFFF) OR 0x1000" using a by simp
  have "(h AND 0xFFF) OR 0x1000 < 2 ^ 13" using a by (intro OR_upper) simp_all
  then show "(h AND 0xFFF) OR 0x1000 < 2 ^ 16" by simp
qed

lemma seq_fields_range:
  assumes "0 \<le> s" "s < 16384"
  shows "js_or (js_ushr s 8) 0x80 = s div 256 + 128" and "js_and s 0xFF = s mod 256"
proof -
  have r: "0 \<le> s div 256" "s div 256 < 64" using assms by simp_all
  then show "js_or (js_ushr s 8) 0x80 = s div 256 + 128"
    using assms by (simp add: js_ushr_small js_or_small or_128)
  show "js_and s 0xFF = s mod 256" by (rule js_and_FF)
qed

lemma hexString_canonical:
  assumes "0 \<le> a" "a < 2 ^ 32" "0 \<le> b" "b < 2 ^ 16" "0 \<le> c" "c < 2 ^ 16"
    "0 \<le> d" "d < 2 ^ 8" "0 \<le> e" "e < 2 ^ 8" "0 \<le> f" "f < 2 ^ 48"
  shows "canonical_text True (hexString (init a b c d e f))"
proof -
  note A = hexAligner_fit [of a 8] and B = hexAligner_fit [of b 4] and C = hexAligner_fit [of c 4]
    and D = hexAligner_fit [of d 2] and E = hexAligner_fit [of e 2] and F = hexAligner_fit [of f 12]
  have "canonical_text True
      (hexAligner a 8 @ 45 # hexAligner b 4 @ 45 # hexAligner c 4 @ 45 # hexAligner d 2 @
       hexAligner e 2 @ 45 # hexAligner f 12)"
    using assms A(1,2) B(1,2) C(1,2) D(1,2) E(1,2) F(1,2)
    by (intro canonical_textI) (simp_all add: hexp_simps)
  then show ?thesis by (simp only: hexString_init)
qed

text \<open>
  Where \<open>timeLow = low + tick\<close> stays below \<open>2^32\<close>, the object returned by \<open>genV1\<close>
  in a reachable state has the canonical \<open>hexString\<close>.
\<close>

lemma genV1_hexString_canonical:
  assumes "reachable st" "rng_ok g"
    and "intFields (fst (genV1 now g st)) ! 0 < 2 ^ 32"
  shows "canonical_text True (hexString (fst (genV1 now g st)))"
proof -
  define st' where "st' = fst (snd (genV1 now g st))"
  define tf where "tf = getTimeFieldValues (timestamp st')"
  define a where "a = tf_low tf + tick st'"
  define b where "b = tf_mid tf"
  define c where "c = js_or (js_and (tf_hi tf) 0xFFF) 0x1000"
  define d where "d = js_or (js_ushr (sequence st') 8) 0x80"
  define e where "e = js_and (sequence st') 0xFF"
  define f where "f = node st'"
  have u: "fst (genV1 now g st) = init a b c d e f"
    by (simp add: genV1_uuid Let_def st'_def tf_def a_def b_def c_def d_def e_def f_def)
  have r': "reachable st'"
    unfolding st'_def using assms(1,2) by (rule reachable.generated)
  have sq: "0 \<le> sequence st'" "sequence st' < 16384"
    using reachable_sequence [OF r'] by simp_all
  have a: "0 \<le> a" "a < 2 ^ 32"
    using time_fields_range(1) [of "timestamp st'"] reachable_ranges [OF r'] assms(3)
    by (simp_all add: a_def tf_def u intFields_init)
  have b: "0 \<le> b" "b < 2 ^ 16"
    using time_fields_range(3,4) [of "timestamp st'"] by (simp_all add: b_def tf_def)
  have c: "0 \<le> c" "c < 2 ^ 16"
    using thav_range [of "tf_hi tf"] by (simp_all add: c_def)
  have d: "0 \<le> d" "d < 2 ^ 8" and e: "0 \<le> e" "e < 2 ^ 8"
    using seq_fields_range [OF sq] sq by (simp_all add: d_def e_def)
  have f: "0 \<le> f" "f < 2 ^ 48"
    using reachable_ranges [OF r'] by (simp_all add: f_def)
  show ?thesis
    unfolding u using a b c d e f by (rule hexString_canonical)
qed

subsection \<open>The time fields at two clock values\<close>

lemma reachable_state_edge: "reachable state_edge"
  unfolding state_edge_def by (intro reachable.generated reachable.loaded rng_ok_top)

lemma state_edge_eq:
  "state_edge =
     \<lparr> timestamp = 1790169394543, sequence = 16383, node = 281474976677888, tick = 15 \<rparr>"
  unfolding state_edge_def
  by (simp add: genV1_state [OF rng_ok_top] new_UUIDState_eq [OF rng_ok_top] draws_const_apply
      floor_rat_numeral)

lemma time_fields_edge:
  "getTimeFieldValues 1790169394543 =
     \<lparr> tf_low = 4294967280, tf_mid = 46928, tf_hi = 497, tf_timestamp = 14009462194543 \<rparr>"
  by code_simp

lemma time_fields_2039:
  "getTimeFieldValues 2192285707631 =
     \<lparr> tf_low = 4294967280, tf_mid = 139, tf_hi = 512, tf_timestamp = 14411578507631 \<rparr>"
  by code_simp

lemma spec_time_fields_2039:
  "spec_time_fields 2192285707631 =
     \<lparr> tf_low = 4294967280, tf_mid = 138, tf_hi = 512, tf_timestamp = 14411578507631 \<rparr>"
  by code_simp


lemma genV1_edge_state:
  "fst (snd (genV1 1790169394543 (draws_const 0) state_edge) ) =
     \<lparr> timestamp = 1790169394543, sequence = 16383, node = 281474976677888, tick = 16 \<rparr>"
  by (simp add: genV1_state [OF rng_ok_zero] state_edge_eq draws_const_apply)

lemma genV1_edge_uuid:
  "fst (genV1 1790169394543 (draws_const 0) state_edge) =
     init 4294967296 46928 4593 191 255 281474976677888"
  by (simp add: genV1_uuid genV1_edge_state time_fields_edge Let_def
      js_or_def js_and_def js_ushr_def)

lemma hexString_edge:
  "hexString (init 4294967296 46928 4593 191 255 281474976677888) =
     js ''100000000-b750-11f1-bfff-ffffffff8000''"
  by (simp add: hexString_init hexAligner_eval digits_step digit_unit_def js_def)

text \<open>
  C4 fails on the code. In the reachable state \<open>state_edge\<close> the tick is 15 and the
  low time field of the stored timestamp is \<open>2^32 - 16\<close>. A call that reads the same
  clock value and draws 0 twice advances the tick to 16, so \<open>timeLow = low + tick\<close> is
  \<open>2^32\<close>: the first group of the \<open>hexString\<close> has nine digits and the string 37
  characters, which is not the canonical text.
\<close>

theorem genV1_timeLow_overflow:
  "reachable state_edge \<and> rng_ok (draws_const 0) \<and>
   intFields (fst (genV1 1790169394543 (draws_const 0) state_edge)) ! 0 = 4294967296 \<and>
   hexString (fst (genV1 1790169394543 (draws_const 0) state_edge))
     = js ''100000000-b750-11f1-bfff-ffffffff8000'' \<and>
   length (hexString (fst (genV1 1790169394543 (draws_const 0) state_edge))) = 37 \<and>
   \<not> canonical_text True (hexString (fst (genV1 1790169394543 (draws_const 0) state_edge)))"
proof -
  have len: "length (js ''100000000-b750-11f1-bfff-ffffffff8000'') = 37"
    by (simp add: js_def)
  have "\<not> canonical_text True (js ''100000000-b750-11f1-bfff-ffffffff8000'')"
  proof
    assume "canonical_text True (js ''100000000-b750-11f1-bfff-ffffffff8000'')"
    then have "length (js ''100000000-b750-11f1-bfff-ffffffff8000'')
        = length ''xxxxxxxx-xxxx-xxxx-xxxx-xxxxxxxxxxxx''"
      unfolding canonical_text_def by (rule list_all2_lengthD)
    then show False using len by simp
  qed
  then show ?thesis
    using reachable_state_edge rng_ok_zero len
    by (simp add: genV1_edge_uuid hexString_edge intFields_init)
qed

text \<open>
  C5 fails on the code. At the clock value 2192285707631 (2039-06-21T16:15:07.631Z) the
  exact product \<open>(delta / 2^32) * 10000\<close> is \<open>33554571 - 2^-28\<close>, which has 54
  significant bits; the double product rounds it to 33554571, so the code gives
  \<open>mid = 139\<close> where the formulas of the specification give 138.
\<close>

theorem getTimeFieldValues_rounding:
  "tf_mid (getTimeFieldValues 2192285707631) = 139 \<and>
   tf_mid (spec_time_fields 2192285707631) = 138 \<and>
   getTimeFieldValues 2192285707631 \<noteq> spec_time_fields 2192285707631"
  by (simp add: time_fields_2039 spec_time_fields_2039)

subsection \<open>The time fields where the double product is exact\<close>

lemma pow2_powi: "pow2 e = 2 powi e"
  by (simp add: pow2_def power_int_def inverse_eq_divide power_one_over)

lemma floor_log2_le:
  assumes "0 < x"
  shows "pow2 (floor_log2 x) \<le> x"
proof (cases "1 \<le> x")
  case True
  define n where "n = \<lfloor>x\<rfloor>"
  have n: "0 < n" "of_int n \<le> x" using True by (simp_all add: n_def)
  define m where "m = nat (bitlen n - 1)"
  have "2 ^ m \<le> n" using bitlen_bounds [OF n(1)] by (simp add: m_def)
  then have "(of_int (2 ^ m) :: rat) \<le> x" by (simp only: le_floor_iff n_def)
  then have le: "(2::rat) ^ m \<le> x" by simp
  have "1 \<le> bitlen n" using n(1) bitlen_eq_zero_iff [of n] bitlen_nonneg [of n]
    by linarith
  then show ?thesis
    using True le by (simp add: floor_log2_def pow2_def n_def [symmetric] m_def [symmetric])
next
  case False
  define c where "c = \<lceil>1 / x\<rceil>"
  have "1 < 1 / x" using assms False by simp
  then have c: "1 < c" unfolding c_def by (simp add: less_ceiling_iff)
  define b where "b = bitlen (c - 1)"
  have b: "0 < b" using c bitlen_eq_zero_iff [of "c - 1"] bitlen_nonneg [of "c - 1"]
    unfolding b_def by linarith
  have "c - 1 < 2 ^ nat b" using bitlen_bounds [of "c - 1"] c unfolding b_def by simp
  then have "c \<le> 2 ^ nat b" by simp
  then have up: "(of_int c :: rat) \<le> of_int (2 ^ nat b)" by (simp only: of_int_le_iff)
  have "1 / x \<le> of_int c" unfolding c_def by (rule le_of_int_ceiling)
  then have "1 / x \<le> of_int (2 ^ nat b)" using up by (rule order_trans)
  then have "1 / x \<le> 2 ^ nat b" by simp
  then have "1 / 2 ^ nat b \<le> x"
    using assms by (simp add: field_simps)
  then show ?thesis
    using False b by (simp add: floor_log2_def pow2_def b_def c_def)
qed

lemma round_half_even_of_int: "round_half_even (of_int n) = n"
  by (simp add: round_half_even_def)

lemma fl64_exact_pos:
  assumes "0 < N" "N < 2 ^ 53"
  shows "fl64 (of_int N / 2 ^ k) = of_int N / 2 ^ k"
proof -
  define x :: rat where "x = of_int N / 2 ^ k"
  define e where "e = floor_log2 x"
  have x: "0 < x" using assms(1) by (simp add: x_def)
  have "2 powi e \<le> x" using floor_log2_le [OF x] by (simp add: e_def pow2_powi)
  also have "x < 2 ^ 53 / 2 ^ k"
    using assms(2) by (simp add: x_def divide_strict_right_mono)
  also have "\<dots> = 2 powi (53 - int k)"
    by (simp add: power_int_diff)
  finally have lt: "2 powi e < (2::rat) powi (53 - int k)" .
  have "e < 53 - int k"
  proof (rule ccontr)
    assume "\<not> e < 53 - int k"
    then have "53 - int k \<le> e" by simp
    then have "(2::rat) powi (53 - int k) \<le> 2 powi e"
      by (intro power_int_increasing) simp_all
    then show False using lt by simp
  qed
  then have j: "0 \<le> 52 - e - int k" by simp
  define j where "j = N * 2 ^ nat (52 - e - int k)"
  have "x / pow2 (e - 52) = of_int N * (2 powi (- int k) * 2 powi (52 - e))"
    by (simp add: x_def pow2_powi power_int_minus power_int_diff field_simps)
  also have "2 powi (- int k) * 2 powi (52 - e) = (2::rat) powi (52 - e - int k)"
    by (simp add: power_int_add [symmetric])
  also have "\<dots> = 2 ^ nat (52 - e - int k)"
    using j by (simp add: power_int_def)
  finally have m: "x / pow2 (e - 52) = of_int j" by (simp add: j_def)
  have "pow2 (e - 52) \<noteq> 0" by (simp add: pow2_powi)
  then have "of_int j * pow2 (e - 52) = x" using m by (simp add: field_simps)
  then have "fl64 x = x"
    using x m by (simp add: fl64_def Let_def e_def [symmetric] round_half_even_of_int)
  then show ?thesis by (simp add: x_def)
qed


lemma fl64_exact:
  assumes "\<bar>N\<bar> < 2 ^ 53"
  shows "fl64 (of_int N / 2 ^ k) = of_int N / 2 ^ k"
proof -
  consider "N = 0" | "0 < N" | "N < 0" by linarith
  then show ?thesis
  proof cases
    case 1
    then show ?thesis by (simp add: fl64_def)
  next
    case 2
    then show ?thesis using assms by (intro fl64_exact_pos) simp_all
  next
    case 3
    have odd: "fl64 (- y) = - fl64 y" for y
      by (simp add: fl64_def Let_def)
    have "fl64 (of_int (- N) / 2 ^ k) = of_int (- N) / 2 ^ k"
      using 3 assms by (intro fl64_exact_pos) simp_all
    then show ?thesis using odd [of "of_int N / 2 ^ k"] by simp
  qed
qed

lemma js_trunc_of_int: "js_trunc (of_int n) = n"
  by (simp add: js_trunc_def)

text \<open>
  Where \<open>delta * 625\<close> has at most 53 bits (clock values up to 2039-06-20) no
  operation of \<open>_getTimeFieldValues\<close> rounds, and the code gives the fields of the
  formulas of the specification.
\<close>

lemma getTimeFieldValues_exact:
  assumes "\<bar>(time - Date_UTC_1582_10_15) * 625\<bar> < 2 ^ 53"
  shows "getTimeFieldValues time = spec_time_fields time"
proof -
  define delta where "delta = time - Date_UTC_1582_10_15"
  have d: "\<bar>delta\<bar> < 2 ^ 53" "\<bar>delta * 625\<bar> < 2 ^ 53"
    using assms by (simp_all add: delta_def abs_mult)
  have ts: "fl64 (of_int time - of_int Date_UTC_1582_10_15) = of_int delta"
    using fl64_exact [OF d(1), of 0] by (simp add: delta_def)
  have q: "fl64 (of_int delta / 0x100000000) = of_int delta / 2 ^ 32"
    using fl64_exact [OF d(1), of 32] by simp
  have "of_int delta / 2 ^ 32 * 10000 = (of_int (delta * 625) :: rat) / 2 ^ 28"
    by simp
  then have p: "fl64 (of_int delta / 2 ^ 32 * 10000) = of_int delta / 2 ^ 32 * 10000"
    using fl64_exact [OF d(2), of 28] by (simp only:)
  then have p': "fl64 (625 * of_int delta / 268435456) = 625 * of_int delta / 268435456"
    by simp
  define hm where "hm = js_trunc (of_int delta / 2 ^ 32 * 10000) AND 0xFFFFFFF"
  have hm: "0 \<le> hm" "hm < 4294967296"
  proof -
    show "0 \<le> hm" by (simp add: hm_def)
    have "hm \<le> 0xFFFFFFF" unfolding hm_def by (rule AND_upper2) simp
    then show "hm < 4294967296" by simp
  qed
  define lw where "lw = (delta AND 0xFFFFFFF) * 10000"
  have lw: "0 \<le> lw" by (simp add: lw_def)
  have rem: "js_rem lw 0x100000000 = lw mod 2 ^ 32"
    using lw by (cases "lw = 0") (simp_all add: js_rem_def)
  have "getTimeFieldValues time =
      \<lparr> tf_low = js_rem lw 0x100000000, tf_mid = js_and hm 0xFFFF, tf_hi = js_ushr hm 16,
        tf_timestamp = of_int delta \<rparr>"
    by (simp add: getTimeFieldValues_def Let_def ts q p' js_trunc_of_int js_and_mask hm_def lw_def)
  also have "\<dots> = \<lparr> tf_low = lw mod 2 ^ 32, tf_mid = hm AND 0xFFFF, tf_hi = drop_bit 16 hm,
        tf_timestamp = of_int delta \<rparr>"
    using hm by (simp add: rem js_and_mask js_ushr_small drop_bit_eq_div)
  also have "\<dots> = spec_time_fields time"
  proof -
    have dd: "time - gregorian_epoch_ms = delta"
      by (simp add: delta_def Date_UTC_1582_10_15_def gregorian_epoch_ms_def)
    show ?thesis
      by (simp only: spec_time_fields_def Let_def dd hm_def lw_def)
  qed
  finally show ?thesis .
qed

lemma getTimeFieldValues_exact_example:
  "\<bar>(1790169394543 - Date_UTC_1582_10_15) * 625\<bar> < 2 ^ 53 \<and>
   getTimeFieldValues 1790169394543 = spec_time_fields 1790169394543 \<and>
   spec_time_fields 1790169394543 =
     \<lparr> tf_low = 4294967280, tf_mid = 46928, tf_hi = 497, tf_timestamp = 14009462194543 \<rparr>"
  using getTimeFieldValues_exact [of 1790169394543] time_fields_edge
  by (simp add: Date_UTC_1582_10_15_def)

end
